theory Spec2Isabelle
  imports Main "HOL-Library.Sublist" "HOL-Library.Multiset"
begin

section \<open>git-walk: the data model\<close>

text \<open>
  The program walks a directory tree, sends every directory that holds a
  \<^verbatim>\<open>.git\<close> directory over an unbuffered channel to a pool of worker goroutines, and
  each worker runs the configured command there and reports the result under one
  global mutex. The embedding follows \<^verbatim>\<open>git-walk.go\<close>: the walker callback and
  \<^verbatim>\<open>execute\<close> are functions producing the sequence of effects they perform, and the
  goroutines, the channel and the mutex are a transition system over an explicit state.
  Debug tracing (the \<^verbatim>\<open>log\<close> package, discarded unless \<^verbatim>\<open>--debug\<close> is given) and the
  parsing of the command line are not modelled.
\<close>

subsection \<open>The file system as the walk sees it\<close>

text \<open>
  A node is what \<^verbatim>\<open>Lstat\<close> and a directory listing report for one path: something that
  is not a directory, a path whose \<^verbatim>\<open>Lstat\<close> fails (with the error text), a directory
  that cannot be listed (with the error text), or a directory with its entries in
  listing order. A path is the list of entry names below the starting directory.
\<close>

datatype fsnode =
    File
  | NoStat string
  | NoList string
  | Dir "(string \<times> fsnode) list"

type_synonym path = "string list"

datatype stream = Stdout | Stderr

datatype pevent = Send path | PErr string

datatype walkret = RNil | RSkipDir

fun IsDir :: "fsnode \<Rightarrow> bool" where
  "IsDir (Dir cs) = True"
| "IsDir (NoList e) = True"
| "IsDir File = False"
| "IsDir (NoStat e) = False"

text \<open>
  \<^verbatim>\<open>ioutil.ReadDir\<close> stats every entry and fails with the first error it meets.
\<close>

fun stat_errors :: "(string \<times> fsnode) list \<Rightarrow> string list" where
  "stat_errors [] = []"
| "stat_errors ((n, NoStat e) # cs) = e # stat_errors cs"
| "stat_errors ((n, c) # cs) = stat_errors cs"

fun ReadDir :: "fsnode \<Rightarrow> string + (string \<times> fsnode) list" where
  "ReadDir (Dir cs) = (case stat_errors cs of [] \<Rightarrow> Inr cs | e # es \<Rightarrow> Inl e)"
| "ReadDir (NoList e) = Inl e"
| "ReadDir (NoStat e) = Inl e"
| "ReadDir File = Inl ''not a directory''"

text \<open>
  \<^verbatim>\<open>filepath.Clean\<close> on a system whose separator is the slash: the path is cut at the
  separators; empty elements and \<^verbatim>\<open>.\<close> are dropped; \<^verbatim>\<open>..\<close> removes the element before it,
  is dropped at the top of a rooted path and is kept at the top of any other; the elements
  that stay are put together again, after a slash for a rooted path, and the empty result
  is \<^verbatim>\<open>.\<close>.
\<close>

fun split_sep :: "string \<Rightarrow> string list" where
  "split_sep [] = [[]]"
| "split_sep (c # cs) =
     (if c = CHR ''/'' then [] # split_sep cs
      else (case split_sep cs of x # xs \<Rightarrow> (c # x) # xs | [] \<Rightarrow> [[c]]))"

fun join_sep :: "string list \<Rightarrow> string" where
  "join_sep [] = []"
| "join_sep [a] = a"
| "join_sep (a # b # cs) = a @ ''/'' @ join_sep (b # cs)"

text \<open>The elements kept so far, the last one first.\<close>

definition clean_step :: "bool \<Rightarrow> string list \<Rightarrow> string \<Rightarrow> string list" where
  "clean_step rooted kept c =
     (if c = [] \<or> c = ''.'' then kept
      else if c = ''..''
      then (case kept of
              [] \<Rightarrow> if rooted then [] else [''..'']
            | t # ts \<Rightarrow> if t = ''..'' then ''..'' # t # ts else ts)
      else c # kept)"

definition Clean :: "string \<Rightarrow> string" where
  "Clean p =
     (case p of
        [] \<Rightarrow> ''.''
      | c # cs \<Rightarrow>
          (let rooted = (c = CHR ''/'');
               body = join_sep (rev (foldl (clean_step rooted) [] (split_sep p)))
           in if rooted then CHR ''/'' # body else if body = [] then ''.'' else body))"

text \<open>
  \<^verbatim>\<open>filepath.Join\<close> of a directory and a name: empty elements are left out, and the
  result is cleaned.
\<close>

definition Join :: "string \<Rightarrow> string \<Rightarrow> string" where
  "Join a b =
     (if a = [] \<and> b = [] then []
      else if a = [] then Clean b
      else if b = [] then Clean a
      else Clean (a @ ''/'' @ b))"

text \<open>
  The path \<^verbatim>\<open>Walk\<close> hands to the callback: the starting directory as it was given, and
  below it the join of the directory's path and the entry's name.
\<close>

definition pathstr :: "string \<Rightarrow> path \<Rightarrow> string" where
  "pathstr w p = foldl Join w p"

text \<open>
  The verb \<^verbatim>\<open>%q\<close>: the string in double quotes, with double quotes and backslashes
  escaped. (Paths are taken to be printable; the escapes of control characters are not
  modelled.)
\<close>

fun escape :: "string \<Rightarrow> string" where
  "escape [] = []"
| "escape (c # cs) =
     (if c = CHR 0x22 \<or> c = CHR 0x5C then CHR 0x5C # c # escape cs else c # escape cs)"

definition quote :: "string \<Rightarrow> string" where
  "quote s = CHR 0x22 # escape s @ [CHR 0x22]"

definition walk_failed :: "string \<Rightarrow> string \<Rightarrow> string" where
  "walk_failed p e = ''walk '' @ quote p @ '' failed with '' @ e @ [CHR 0x0A]"

definition readdir_failed :: "string \<Rightarrow> string \<Rightarrow> string" where
  "readdir_failed p e = ''readdir '' @ quote p @ '' failed with '' @ e @ [CHR 0x0A]"

subsection \<open>The walker callback and \<^verbatim>\<open>filepath.Walk\<close>\<close>

text \<open>The loop of lines 170 to 175: is some entry a directory named \<^verbatim>\<open>.git\<close>?\<close>

fun marker :: "(string \<times> fsnode) list \<Rightarrow> bool" where
  "marker [] = False"
| "marker ((n, c) # infos) = (if IsDir c \<and> n = ''.git'' then True else marker infos)"

text \<open>
  The callback, lines 156 to 177. It is given the path, the node there and the error
  \<^verbatim>\<open>Walk\<close> hands over, and yields its effects in order (a line written to standard
  error, or a send on the channel) and its return value.
\<close>

definition walker :: "string \<Rightarrow> path \<Rightarrow> fsnode \<Rightarrow> string option \<Rightarrow> pevent list \<times> walkret" where
  "walker w p info err =
     (case err of
        Some e \<Rightarrow> ([PErr (walk_failed (pathstr w p) e)], RNil)
      | None \<Rightarrow>
          if \<not> IsDir info then ([], RNil)
          else (case ReadDir info of
                  Inl e \<Rightarrow> ([PErr (readdir_failed (pathstr w p) e)], RNil)
                | Inr infos \<Rightarrow>
                    if marker infos then ([Send p], RSkipDir) else ([], RNil)))"

text \<open>
  \<^verbatim>\<open>filepath.Walk\<close> of the Go library, as far as this callback can drive it: the
  callback returns \<^verbatim>\<open>nil\<close> or \<^verbatim>\<open>SkipDir\<close> only. A directory is listed first and the
  callback is called once, with the listing error if there is one; \<^verbatim>\<open>SkipDir\<close> or a
  listing error ends the visit of that directory; otherwise the entries are visited in
  order, an entry whose \<^verbatim>\<open>Lstat\<close> fails being reported to the callback.
\<close>

fun walk :: "string \<Rightarrow> path \<Rightarrow> fsnode \<Rightarrow> pevent list \<times> walkret"
  and walk_names :: "string \<Rightarrow> path \<Rightarrow> (string \<times> fsnode) list \<Rightarrow> pevent list \<times> walkret"
where
  "walk w p File = walker w p File None"
| "walk w p (NoStat e) = walker w p (NoStat e) (Some e)"
| "walk w p (NoList e) = walker w p (NoList e) (Some e)"
| "walk w p (Dir cs) =
     (case walker w p (Dir cs) None of
        (ev, RSkipDir) \<Rightarrow> (ev, RSkipDir)
      | (ev, RNil) \<Rightarrow> (case walk_names w p cs of (ev', r) \<Rightarrow> (ev @ ev', r)))"
| "walk_names w p [] = ([], RNil)"
| "walk_names w p ((n, c) # cs) =
     (case walk w (p @ [n]) c of
        (ev, r) \<Rightarrow>
          if r = RSkipDir \<and> \<not> IsDir c then (ev, r)
          else (case walk_names w p cs of (ev', r') \<Rightarrow> (ev @ ev', r')))"

text \<open>Line 178: the walk from the starting directory; its result is ignored.\<close>

definition Walk :: "string \<Rightarrow> fsnode \<Rightarrow> pevent list" where
  "Walk w fs = fst (walk w [] fs)"

fun sends :: "pevent list \<Rightarrow> path list" where
  "sends [] = []"
| "sends (Send p # ev) = p # sends ev"
| "sends (PErr l # ev) = sends ev"

definition roots :: "string \<Rightarrow> fsnode \<Rightarrow> path list" where
  "roots w fs = sends (Walk w fs)"

subsection \<open>Paths in a tree\<close>

fun lookup :: "fsnode \<Rightarrow> path \<Rightarrow> fsnode option" where
  "lookup n [] = Some n"
| "lookup (Dir cs) (x # q) = (case map_of cs x of Some c \<Rightarrow> lookup c q | None \<Rightarrow> None)"
| "lookup File (x # q) = None"
| "lookup (NoStat e) (x # q) = None"
| "lookup (NoList e) (x # q) = None"

text \<open>A listing names every entry once.\<close>

fun wf_fs :: "fsnode \<Rightarrow> bool" where
  "wf_fs (Dir cs) = (distinct (map fst cs) \<and> (\<forall>(n, c) \<in> set cs. wf_fs c))"
| "wf_fs File = True"
| "wf_fs (NoStat e) = True"
| "wf_fs (NoList e) = True"

text \<open>
  The callback emits a directory when its own listing of it succeeds and shows a
  directory named \<^verbatim>\<open>.git\<close>.
\<close>

definition is_root :: "fsnode \<Rightarrow> bool" where
  "is_root n = (IsDir n \<and> (case ReadDir n of Inr infos \<Rightarrow> marker infos | Inl e \<Rightarrow> False))"

text \<open>The walk gets down to a path when no directory strictly above it is emitted.\<close>

fun reaches :: "fsnode \<Rightarrow> path \<Rightarrow> bool" where
  "reaches n [] = True"
| "reaches n (x # q) =
     (\<not> is_root n \<and> (case lookup n [x] of Some c \<Rightarrow> reaches c q | None \<Rightarrow> False))"

subsection \<open>The command and what becomes of it\<close>

record config =
  concurrency :: int
  quiet :: bool
  cmd :: "string list"
  wher :: string

text \<open>
  What \<^verbatim>\<open>child.Run()\<close> returns: \<^verbatim>\<open>nil\<close>, an \<^verbatim>\<open>*exec.ExitError\<close> (with the wait status its
  \<^verbatim>\<open>Sys()\<close> holds, when it is a \<^verbatim>\<open>syscall.WaitStatus\<close>, and its text), or any other error
  (the command could not be started). The child's writes are kept in the order and the
  pieces in which it made them.
\<close>

datatype wait_status = WExited nat | WSignaled nat

datatype run_error = ExitError "wait_status option" string | OtherError string

record child_run =
  chunks :: "(stream \<times> string) list"
  failure :: "run_error option"

fun join_sp :: "string list \<Rightarrow> string" where
  "join_sp [] = []"
| "join_sp [a] = a"
| "join_sp (a # b # cs) = a @ '' '' @ join_sp (b # cs)"

definition success_line :: "config \<Rightarrow> string \<Rightarrow> string" where
  "success_line c dir = ''cd '' @ dir @ ''; '' @ join_sp (cmd c) @ [CHR 0x0A]"

definition failure_line :: "config \<Rightarrow> string \<Rightarrow> string \<Rightarrow> string" where
  "failure_line c dir msg =
     ''cd '' @ dir @ '': '' @ [CHR 0x60] @ join_sp (cmd c) @ [CHR 0x60] @ '' failed on '' @ msg
       @ [CHR 0x0A]"

text \<open>What a \<^verbatim>\<open>bytes.Buffer\<close> set as the child's stream holds when the child is gone.\<close>

fun captured :: "stream \<Rightarrow> (stream \<times> string) list \<Rightarrow> string" where
  "captured st [] = []"
| "captured st ((st', bs) # cs) = (if st' = st then bs @ captured st cs else captured st cs)"

subsection \<open>\<^verbatim>\<open>execute\<close>, lines 104 to 144\<close>

text \<open>
  The effects of one call, in program order: the child is run (\<open>Run\<close>; in the serial
  setting its writes go straight to the program's own streams, \<open>ChildOut\<close>), the mutex
  is taken, the status line is written, a signalled child's signal is sent to the program
  itself (\<open>Signal\<close>), the buffers are written out when there are buffers, and the
  deferred unlock runs.
\<close>

datatype action =
    Run string
  | ChildOut stream string
  | Lock
  | Write stream string
  | Signal nat
  | Unlock

fun passthrough :: "(stream \<times> string) list \<Rightarrow> action list" where
  "passthrough [] = []"
| "passthrough ((st, bs) # cs) = ChildOut st bs # passthrough cs"

definition status :: "config \<Rightarrow> string \<Rightarrow> child_run \<Rightarrow> action list" where
  "status c dir ch =
     (case failure ch of
        None \<Rightarrow> if \<not> quiet c then [Write Stdout (success_line c dir)] else []
      | Some (ExitError st msg) \<Rightarrow>
          Write Stderr (failure_line c dir msg) #
            (case st of Some (WSignaled sg) \<Rightarrow> [Signal sg] | _ \<Rightarrow> [])
      | Some (OtherError msg) \<Rightarrow> [Write Stderr (failure_line c dir msg)])"

definition dump :: "config \<Rightarrow> child_run \<Rightarrow> action list" where
  "dump c ch =
     (if concurrency c \<noteq> 1
      then [Write Stdout (captured Stdout (chunks ch)), Write Stderr (captured Stderr (chunks ch))]
      else [])"

definition execute :: "config \<Rightarrow> string \<Rightarrow> child_run \<Rightarrow> action list" where
  "execute c dir ch =
     Run dir # (if concurrency c = 1 then passthrough (chunks ch) else [])
       @ Lock # status c dir ch @ dump c ch @ [Unlock]"

text \<open>Projections of a sequence of effects.\<close>

fun direct_output :: "action list \<Rightarrow> (stream \<times> string) list" where
  "direct_output [] = []"
| "direct_output (ChildOut st bs # as) = (st, bs) # direct_output as"
| "direct_output (a # as) = direct_output as"

fun writes :: "action list \<Rightarrow> (stream \<times> string) list" where
  "writes [] = []"
| "writes (Write st bs # as) = (st, bs) # writes as"
| "writes (a # as) = writes as"

fun relays :: "action list \<Rightarrow> nat list" where
  "relays [] = []"
| "relays (Signal sg # as) = sg # relays as"
| "relays (a # as) = relays as"

text \<open>The part of a sequence of effects that runs with the mutex held.\<close>

fun section_of :: "action list \<Rightarrow> action list" where
  "section_of [] = []"
| "section_of (Lock # as) = takeWhile (\<lambda>a. a \<noteq> Unlock) as"
| "section_of (a # as) = section_of as"

fun before_lock :: "action list \<Rightarrow> action list" where
  "before_lock [] = []"
| "before_lock (Lock # as) = []"
| "before_lock (a # as) = a # before_lock as"

fun wbytes :: "action list \<Rightarrow> (stream \<times> char) list" where
  "wbytes [] = []"
| "wbytes (Write st bs # as) = map (Pair st) bs @ wbytes as"
| "wbytes (a # as) = wbytes as"

fun msg_of :: "run_error \<Rightarrow> string" where
  "msg_of (ExitError st m) = m"
| "msg_of (OtherError m) = m"

section \<open>The goroutines, the channel and the mutex\<close>

text \<open>
  The surroundings of one run: the configuration, the tree below the starting directory,
  what the command does in the \<open>k\<close>-th directory sent, and which signals end this
  process when it sends them to itself.
\<close>

record env =
  cfg :: config
  tree :: fsnode
  child_of :: "nat \<Rightarrow> child_run"
  fatal :: "nat \<Rightarrow> bool"

datatype tid = Main | Worker nat

datatype owner = Walker | Child nat | Report nat

text \<open>
  One byte of the combined output: who wrote it, whether the writing goroutine held the
  mutex at that moment, the stream, the byte.
\<close>

type_synonym entry = "owner \<times> bool \<times> stream \<times> char"

text \<open>
  A worker waits on the channel (\<open>Idle\<close>), is inside \<^verbatim>\<open>execute\<close> for the \<open>k\<close>-th directory
  sent with the effects still to come (\<open>Busy\<close>), or has left its loop (\<open>Gone\<close>).
\<close>

datatype wstate = Idle | Busy nat "action list" | Gone

text \<open>
  How a run stands: still running; \<^verbatim>\<open>main\<close> has returned, with the exit status; ended
  by a signal the program sent to itself (for some signals the Go runtime ends the
  program with a trace and an exit status of its own instead of a death by the signal;
  both are \<open>Killed\<close> here); stopped by the runtime for unlocking a mutex that is not
  locked; stopped by the runtime because every goroutine is blocked (\<^verbatim>\<open>all goroutines are
  asleep - deadlock!\<close>, exit status 2).
\<close>

datatype outcome = Running | Exited nat | Killed nat | Crashed | Aborted

text \<open>
  The main goroutine is the walk: \<open>todo\<close> holds what the walk still does, then comes
  \<^verbatim>\<open>close(dirs)\<close> and \<^verbatim>\<open>wg.Wait()\<close>. \<open>sent\<close> counts the directories handed over.
  \<open>invoked\<close> records every child that was run (worker, number of the directory, working
  directory), \<open>relayed\<close> every signal sent to the program itself, \<open>reported\<close> the
  directories whose report has released the mutex.
\<close>

record state =
  todo :: "pevent list"
  sent :: nat
  chan_closed :: bool
  workers :: "wstate list"
  lock :: "tid option"
  outlog :: "entry list"
  invoked :: "(nat \<times> nat \<times> string) list"
  relayed :: "nat list"
  reported :: "nat list"
  outcome :: outcome

text \<open>
  Lines 101 to 154 and 178: the workers are started, \<open>concurrency\<close> of them (none when
  the number is not positive), and the walk begins.
\<close>

definition init :: "env \<Rightarrow> state" where
  "init e =
     \<lparr>todo = Walk (wher (cfg e)) (tree e), sent = 0, chan_closed = False,
      workers = replicate (nat (concurrency (cfg e))) Idle, lock = None, outlog = [],
      invoked = [], relayed = [], reported = [], outcome = Running\<rparr>"

definition emit :: "owner \<Rightarrow> bool \<Rightarrow> stream \<Rightarrow> string \<Rightarrow> entry list" where
  "emit who h st bs = map (\<lambda>c. (who, h, st, c)) bs"

text \<open>
  A write may reach the stream in pieces: a step of a write puts out the next \<open>n\<close> bytes,
  one at least unless there is nothing to write.
\<close>

definition piece :: "nat \<Rightarrow> string \<Rightarrow> bool" where
  "piece n bs = (n \<le> length bs \<and> (0 < n \<or> bs = []))"

text \<open>
  One step of worker \<open>i\<close>, inside \<^verbatim>\<open>execute\<close> for directory number \<open>k\<close>. Taking the mutex
  waits until it is free. Unlocking a mutex that is not locked is a fatal error of the Go
  runtime. The relay sends the signal to the program itself and goes on; when the signal
  takes effect is a move of its own.
\<close>

fun act :: "env \<Rightarrow> nat \<Rightarrow> nat \<Rightarrow> nat \<Rightarrow> action list \<Rightarrow> state \<Rightarrow> state option" where
  "act e i k n [] s = Some (s\<lparr>workers := (workers s)[i := Idle]\<rparr>)"
| "act e i k n (Run d # as) s =
     Some (s\<lparr>workers := (workers s)[i := Busy k as], invoked := invoked s @ [(i, k, d)]\<rparr>)"
| "act e i k n (ChildOut st bs # as) s =
     (if piece n bs
      then Some (s\<lparr>workers :=
                     (workers s)[i := Busy k (if n = length bs then as
                                              else ChildOut st (drop n bs) # as)],
                   outlog := outlog s @ emit (Child k) (lock s = Some (Worker i)) st (take n bs)\<rparr>)
      else None)"
| "act e i k n (Lock # as) s =
     (if lock s = None
      then Some (s\<lparr>workers := (workers s)[i := Busy k as], lock := Some (Worker i)\<rparr>)
      else None)"
| "act e i k n (Write st bs # as) s =
     (if piece n bs
      then Some (s\<lparr>workers :=
                     (workers s)[i := Busy k (if n = length bs then as
                                              else Write st (drop n bs) # as)],
                   outlog := outlog s @ emit (Report k) (lock s = Some (Worker i)) st (take n bs)\<rparr>)
      else None)"
| "act e i k n (Signal sg # as) s =
     Some (s\<lparr>workers := (workers s)[i := Busy k as], relayed := relayed s @ [sg]\<rparr>)"
| "act e i k n (Unlock # as) s =
     (if lock s = None then Some (s\<lparr>outcome := Crashed\<rparr>)
      else Some (s\<lparr>workers := (workers s)[i := Busy k as], lock := None,
                   reported := reported s @ [k]\<rparr>))"

text \<open>
  When every goroutine is blocked, the Go runtime stops the program. The main goroutine
  is blocked in a send that no worker is waiting for, or in \<^verbatim>\<open>wg.Wait()\<close> while some
  worker has not left. A worker is blocked waiting on the open channel, or waiting for a
  mutex that is held; a worker that has left is no goroutine any more.
\<close>

definition main_waits :: "state \<Rightarrow> bool" where
  "main_waits s =
     (case todo s of
        [] \<Rightarrow> chan_closed s \<and> \<not> list_all (\<lambda>w. w = Gone) (workers s)
      | Send p # ev \<Rightarrow> Idle \<notin> set (workers s)
      | PErr bs # ev \<Rightarrow> False)"

fun waits :: "state \<Rightarrow> wstate \<Rightarrow> bool" where
  "waits s Idle = (\<not> chan_closed s)"
| "waits s Gone = True"
| "waits s (Busy k []) = False"
| "waits s (Busy k (a # as)) = (a = Lock \<and> lock s \<noteq> None)"

definition deadlocked :: "state \<Rightarrow> bool" where
  "deadlocked s = (main_waits s \<and> list_all (waits s) (workers s))"

text \<open>
  The moves of the whole program. The walker writes a piece of an error line (it takes no
  mutex); a pending send meets a worker waiting on the channel, which then enters
  \<^verbatim>\<open>execute\<close>; the walk is over and the channel is closed; a worker takes its next step;
  a waiting worker finds the channel closed and leaves; all workers have left, so
  \<^verbatim>\<open>wg.Wait()\<close> and \<^verbatim>\<open>main\<close> return, and the exit status is 0; a fatal signal that the
  program has sent to itself takes effect, at once or any time later; the runtime finds
  every goroutine blocked and stops the program.
\<close>

datatype move =
    Complain nat | Hand nat | Close | Work nat nat | Leave nat | Return | Die nat | Abort

fun fire :: "env \<Rightarrow> move \<Rightarrow> state \<Rightarrow> state option" where
  "fire e (Complain n) s =
     (case todo s of
        PErr bs # ev \<Rightarrow>
          if piece n bs
          then Some (s\<lparr>todo := (if n = length bs then ev else PErr (drop n bs) # ev),
                       outlog := outlog s @ emit Walker (lock s = Some Main) Stderr (take n bs)\<rparr>)
          else None
      | _ \<Rightarrow> None)"
| "fire e (Hand i) s =
     (case todo s of
        Send p # ev \<Rightarrow>
          if i < length (workers s) \<and> workers s ! i = Idle
          then Some (s\<lparr>todo := ev, sent := Suc (sent s),
                       workers := (workers s)[i := Busy (sent s)
                          (execute (cfg e) (pathstr (wher (cfg e)) p) (child_of e (sent s)))]\<rparr>)
          else None
      | _ \<Rightarrow> None)"
| "fire e Close s =
     (if todo s = [] \<and> \<not> chan_closed s then Some (s\<lparr>chan_closed := True\<rparr>) else None)"
| "fire e (Work i n) s =
     (if i < length (workers s)
      then (case workers s ! i of Busy k as \<Rightarrow> act e i k n as s | _ \<Rightarrow> None)
      else None)"
| "fire e (Leave i) s =
     (if i < length (workers s) \<and> workers s ! i = Idle \<and> chan_closed s
      then Some (s\<lparr>workers := (workers s)[i := Gone]\<rparr>)
      else None)"
| "fire e Return s =
     (if chan_closed s \<and> list_all (\<lambda>w. w = Gone) (workers s)
      then Some (s\<lparr>outcome := Exited 0\<rparr>)
      else None)"
| "fire e (Die sg) s =
     (if sg \<in> set (relayed s) \<and> fatal e sg then Some (s\<lparr>outcome := Killed sg\<rparr>) else None)"
| "fire e Abort s = (if deadlocked s then Some (s\<lparr>outcome := Aborted\<rparr>) else None)"

text \<open>A step is a move of a program that is still running.\<close>

definition step :: "env \<Rightarrow> state \<Rightarrow> state \<Rightarrow> bool" where
  "step e s t = (outcome s = Running \<and> (\<exists>m. fire e m s = Some t))"

fun run :: "env \<Rightarrow> move list \<Rightarrow> state \<Rightarrow> state option" where
  "run e [] s = Some s"
| "run e (m # ms) s =
     (if outcome s = Running
      then (case fire e m s of Some t \<Rightarrow> run e ms t | None \<Rightarrow> None)
      else None)"

definition reachable :: "env \<Rightarrow> state \<Rightarrow> bool" where
  "reachable e s = (\<exists>ms. run e ms (init e) = Some s)"

subsection \<open>What is read off the combined output\<close>

fun reports :: "entry list \<Rightarrow> nat list" where
  "reports [] = []"
| "reports ((Report k, x) # l) = k # reports l"
| "reports ((Walker, x) # l) = reports l"
| "reports ((Child k, x) # l) = reports l"

fun written :: "nat \<Rightarrow> entry list \<Rightarrow> (stream \<times> char) list" where
  "written k [] = []"
| "written k ((who, h, st, c) # l) =
     (if who = Report k then (st, c) # written k l else written k l)"

text \<open>
  The bytes of one writer are in one piece: once another writer's byte has followed
  them, none of its own comes again.
\<close>

definition solid :: "'a \<Rightarrow> 'a list \<Rightarrow> bool" where
  "solid who l = (who \<notin> set (dropWhile (\<lambda>x. x = who) (dropWhile (\<lambda>x. x \<noteq> who) l)))"

section \<open>Invariants of a run\<close>

text \<open>
  Where a worker stands inside \<^verbatim>\<open>execute\<close> is read off the effects still to come: it
  holds the mutex (\<open>in_cs\<close>) when only writes and the relay separate it from the final
  unlock, it is before the mutex (\<open>pre_cs\<close>) when only the child's own writes separate
  it from taking the mutex, and it has not run the child yet (\<open>fresh\<close>) when running
  the child comes first.
\<close>

fun in_cs :: "action list \<Rightarrow> bool" where
  "in_cs [] = False"
| "in_cs (Write st bs # as) = in_cs as"
| "in_cs (Signal sg # as) = in_cs as"
| "in_cs (Unlock # as) = (as = [])"
| "in_cs (Run d # as) = False"
| "in_cs (ChildOut st bs # as) = False"
| "in_cs (Lock # as) = False"

fun pre_cs :: "action list \<Rightarrow> bool" where
  "pre_cs [] = False"
| "pre_cs (Lock # as) = in_cs as"
| "pre_cs (ChildOut st bs # as) = pre_cs as"
| "pre_cs (Write st bs # as) = False"
| "pre_cs (Signal sg # as) = False"
| "pre_cs (Unlock # as) = False"
| "pre_cs (Run d # as) = False"

fun fresh :: "action list \<Rightarrow> bool" where
  "fresh (Run d # as) = pre_cs as"
| "fresh as = False"

definition busy :: "state \<Rightarrow> nat \<Rightarrow> nat \<Rightarrow> action list \<Rightarrow> bool" where
  "busy s i k as = (i < length (workers s) \<and> workers s ! i = Busy k as)"

text \<open>
  The mutex: a busy worker is somewhere on the way through \<^verbatim>\<open>execute\<close>, it is the holder
  exactly when it is in its critical section, nobody else holds the mutex, and the
  runtime has not stopped the program.
\<close>

definition inv_lock :: "state \<Rightarrow> bool" where
  "inv_lock s =
     ((\<forall>i k as. busy s i k as \<longrightarrow>
         (as = [] \<or> fresh as \<or> pre_cs as \<or> in_cs as) \<and>
         (in_cs as \<longleftrightarrow> lock s = Some (Worker i)))
      \<and> (\<forall>i. lock s = Some (Worker i) \<longrightarrow>
            i < length (workers s) \<and> workers s ! i \<noteq> Idle \<and> workers s ! i \<noteq> Gone)
      \<and> lock s \<noteq> Some Main
      \<and> outcome s \<noteq> Crashed)"

text \<open>The working directory and the effects of the call for the \<open>k\<close>-th directory sent.\<close>

definition found :: "env \<Rightarrow> path list" where
  "found e = roots (wher (cfg e)) (tree e)"

definition dir_of :: "env \<Rightarrow> nat \<Rightarrow> string" where
  "dir_of e k = pathstr (wher (cfg e)) (found e ! k)"

definition plan :: "env \<Rightarrow> nat \<Rightarrow> action list" where
  "plan e k = execute (cfg e) (dir_of e k) (child_of e k)"

definition ids :: "(nat \<times> nat \<times> string) list \<Rightarrow> nat list" where
  "ids l = map (\<lambda>x. fst (snd x)) l"

text \<open>Numbers: every number in use is below \<open>sent\<close>, and no two workers share one.\<close>

definition inv_ids :: "state \<Rightarrow> bool" where
  "inv_ids s =
     ((\<forall>i k as. busy s i k as \<longrightarrow> k < sent s)
      \<and> (\<forall>i j k as as'. busy s i k as \<longrightarrow> busy s j k as' \<longrightarrow> i = j)
      \<and> (\<forall>k \<in> set (reports (outlog s)). k < sent s)
      \<and> (\<forall>k \<in> set (reported s). k < sent s)
      \<and> (\<forall>k \<in> set (ids (invoked s)). k < sent s))"

text \<open>
  The channel: the sends still to come are the directories found and not yet sent, the
  channel is closed only after the walk, and a worker leaves only after it is closed.
\<close>

definition inv_chan :: "env \<Rightarrow> state \<Rightarrow> bool" where
  "inv_chan e s =
     (sends (todo s) = drop (sent s) (found e)
      \<and> sent s \<le> length (found e)
      \<and> (chan_closed s \<longrightarrow> todo s = [])
      \<and> (\<forall>i < length (workers s). workers s ! i = Gone \<longrightarrow> chan_closed s)
      \<and> length (workers s) = nat (concurrency (cfg e)))"

text \<open>
  The combined output: the bytes of the reports come in blocks, a worker outside its
  critical section has no byte of its present report in the output, the holder of the
  mutex wrote the last report byte if it wrote any, and every byte is marked with
  whether its writer held the mutex.
\<close>

definition inv_log :: "state \<Rightarrow> bool" where
  "inv_log s =
     (distinct (remdups_adj (reports (outlog s)))
      \<and> (\<forall>i k as. busy s i k as \<longrightarrow>
            (as \<noteq> [] \<and> \<not> in_cs as \<longrightarrow> k \<notin> set (reports (outlog s))) \<and>
            (in_cs as \<longrightarrow> k \<in> set (reports (outlog s)) \<longrightarrow> last (reports (outlog s)) = k))
      \<and> (\<forall>x \<in> set (outlog s).
            (fst (snd x) \<longleftrightarrow> (\<exists>k. fst x = Report k)) \<and>
            (fst x = Walker \<longrightarrow> fst (snd (snd x)) = Stderr)))"

text \<open>
  Every worker follows the effects of \<^verbatim>\<open>execute\<close> for its directory: what its report has
  written and what it still writes make up the writes of that call.
\<close>

definition inv_plan :: "env \<Rightarrow> state \<Rightarrow> bool" where
  "inv_plan e s =
     ((\<forall>i k as. busy s i k as \<longrightarrow>
          written k (outlog s) @ wbytes as = wbytes (plan e k)
          \<and> (fresh as \<longrightarrow> as = plan e k)
          \<and> set (relays as) \<subseteq> set (relays (plan e k))
          \<and> (direct_output as \<noteq> [] \<longrightarrow> concurrency (cfg e) = 1)
          \<and> (k \<in> set (reported s) \<longrightarrow> as = []))
      \<and> (\<forall>k \<in> set (reported s). written k (outlog s) = wbytes (plan e k))
      \<and> (\<forall>x \<in> set (outlog s). \<forall>k. fst x = Child k \<longrightarrow> concurrency (cfg e) = 1))"

text \<open>
  The children run: each for the directory of its number, no number twice, and every
  number sent is either run already or still fresh with some worker.
\<close>

definition inv_invoked :: "env \<Rightarrow> state \<Rightarrow> bool" where
  "inv_invoked e s =
     ((\<forall>x \<in> set (invoked s). snd (snd x) = dir_of e (fst (snd x)))
      \<and> distinct (ids (invoked s))
      \<and> (\<forall>i k as. busy s i k as \<longrightarrow> fresh as \<longrightarrow> k \<notin> set (ids (invoked s)))
      \<and> (\<forall>k < sent s. k \<in> set (ids (invoked s)) \<or> (\<exists>i as. busy s i k as \<and> fresh as)))"

text \<open>How a run can have ended.\<close>

definition inv_outcome :: "env \<Rightarrow> state \<Rightarrow> bool" where
  "inv_outcome e s =
     ((\<forall>sg \<in> set (relayed s). \<exists>k < sent s. sg \<in> set (relays (plan e k)))
      \<and> (\<forall>sg. outcome s = Killed sg \<longrightarrow> fatal e sg \<and> sg \<in> set (relayed s))
      \<and> (\<forall>c. outcome s = Exited c \<longrightarrow>
            c = 0 \<and> todo s = [] \<and> chan_closed s \<and> list_all (\<lambda>w. w = Gone) (workers s))
      \<and> (outcome s = Aborted \<longrightarrow> concurrency (cfg e) \<le> 0))"

definition invariant :: "env \<Rightarrow> state \<Rightarrow> bool" where
  "invariant e s =
     (inv_lock s \<and> inv_ids s \<and> inv_chan e s \<and> inv_log s \<and> inv_plan e s \<and> inv_invoked e s
      \<and> inv_outcome e s)"

subsection \<open>A bound on the steps still to come\<close>

fun cost :: "action \<Rightarrow> nat" where
  "cost (Write st bs) = Suc (length bs)"
| "cost (ChildOut st bs) = Suc (length bs)"
| "cost a = 1"

fun wcost :: "wstate \<Rightarrow> nat" where
  "wcost Gone = 0"
| "wcost Idle = 1"
| "wcost (Busy k as) = 2 + sum_list (map cost as)"

fun pcost :: "env \<Rightarrow> nat \<Rightarrow> pevent list \<Rightarrow> nat" where
  "pcost e k [] = 0"
| "pcost e k (PErr bs # ev) = Suc (length bs) + pcost e k ev"
| "pcost e k (Send p # ev) =
     2 + sum_list (map cost (execute (cfg e) (pathstr (wher (cfg e)) p) (child_of e k)))
       + pcost e (Suc k) ev"

definition fuel :: "env \<Rightarrow> state \<Rightarrow> nat" where
  "fuel e s =
     (if outcome s = Running then 1 else 0) + (if chan_closed s then 0 else 1)
       + pcost e (sent s) (todo s) + sum_list (map wcost (workers s))"

subsection \<open>A run without workers\<close>

text \<open>Nothing has been handed over, and nothing can be: the walk is all there is.\<close>

definition starved :: "env \<Rightarrow> state \<Rightarrow> bool" where
  "starved e s = (workers s = [] \<and> (outcome s = Running \<or> outcome s = Aborted)
     \<and> \<not> chan_closed s \<and> sent s = 0 \<and> invoked s = [] \<and> relayed s = []
     \<and> sends (todo s) = found e)"


section \<open>Concrete configurations, trees and children\<close>


definition cfg_serial :: config where
  "cfg_serial = \<lparr>concurrency = 1, quiet = False, cmd = [''c''], wher = ''.''\<rparr>"

definition cfg_pair :: config where
  "cfg_pair = \<lparr>concurrency = 2, quiet = False, cmd = [''c''], wher = ''.''\<rparr>"

definition child_ok :: child_run where
  "child_ok = \<lparr>chunks = [(Stdout, ''x'')], failure = None\<rparr>"

definition child_exit3 :: child_run where
  "child_exit3 =
     \<lparr>chunks = [(Stderr, ''y'')], failure = Some (ExitError (Some (WExited 3)) ''exit status 3'')\<rparr>"

definition child_term :: child_run where
  "child_term =
     \<lparr>chunks = [], failure = Some (ExitError (Some (WSignaled 15)) ''signal: terminated'')\<rparr>"

text \<open>A tree with two repositories side by side, and one with a repository inside another.\<close>

definition tree_two :: fsnode where
  "tree_two = Dir [(''a'', Dir [(''.git'', Dir [])]), (''b'', Dir [(''.git'', Dir [])])]"

definition tree_nested :: fsnode where
  "tree_nested = Dir [(''A'', Dir [(''.git'', Dir []), (''B'', Dir [(''.git'', Dir [])])])]"

text \<open>A repository beside a directory that cannot be listed.\<close>

definition tree_blocked :: fsnode where
  "tree_blocked = Dir [(''a'', Dir [(''.git'', Dir [])]), (''b'', NoList ''denied'')]"

text \<open>
  A serial run over the two repositories in which the command is ended by signal 15 in
  the first one: the program sends itself the signal after the failure line, and the
  signal takes effect.
\<close>

definition env_kill :: env where
  "env_kill =
     \<lparr>cfg = cfg_serial, tree = tree_two,
      child_of = (\<lambda>k. if k = 0 then child_term else child_ok), fatal = (\<lambda>sg. True)\<rparr>"

definition moves_kill :: "move list" where
  "moves_kill = [Hand 0, Work 0 0, Work 0 0, Work 0 39, Work 0 0, Die 15]"

definition state_kill :: state where
  "state_kill = the (run env_kill moves_kill (init env_kill))"

text \<open>A run with two workers over the two repositories, to its end.\<close>

definition env_two :: env where
  "env_two =
     \<lparr>cfg = cfg_pair, tree = tree_two, child_of = (\<lambda>k. child_ok), fatal = (\<lambda>sg. True)\<rparr>"

definition moves_two :: "move list" where
  "moves_two =
     [Hand 0, Hand 1, Work 1 0, Work 0 0, Work 1 0, Work 1 3, Work 1 5, Work 1 1, Work 1 0,
      Work 1 0, Work 0 0, Work 0 8, Work 0 1, Work 0 0, Work 0 0, Work 0 0, Work 1 0,
      Close, Leave 1, Leave 0, Return]"

definition state_two :: state where
  "state_two = the (run env_two moves_two (init env_two))"

text \<open>
  Two workers, a repository and a directory that cannot be listed: the walker's error
  line reaches standard error while worker 0 is between its status line and its dump.
\<close>

definition env_blocked :: env where
  "env_blocked =
     \<lparr>cfg = cfg_pair, tree = tree_blocked, child_of = (\<lambda>k. child_ok), fatal = (\<lambda>sg. True)\<rparr>"

definition moves_blocked :: "move list" where
  "moves_blocked =
     [Hand 0, Work 0 0, Work 0 0, Work 0 8, Complain 28, Work 0 1, Work 0 0, Work 0 0]"

definition state_blocked :: state where
  "state_blocked = the (run env_blocked moves_blocked (init env_blocked))"

text \<open>
  No worker at all, and a repository to send: the walk comes to the send at once, and the
  runtime stops the program.
\<close>

definition env_none :: env where
  "env_none =
     \<lparr>cfg = \<lparr>concurrency = 0, quiet = False, cmd = [''c''], wher = ''.''\<rparr>, tree = tree_two,
      child_of = (\<lambda>k. child_ok), fatal = (\<lambda>sg. True)\<rparr>"

definition state_none :: state where
  "state_none = the (run env_none [Abort] (init env_none))"

text \<open>
  Two workers, the command failing with exit code 3 in the one repository, and a
  directory that cannot be listed: a run to its end.
\<close>

definition env_fail :: env where
  "env_fail =
     \<lparr>cfg = cfg_pair, tree = tree_blocked, child_of = (\<lambda>k. child_exit3),
      fatal = (\<lambda>sg. True)\<rparr>"

definition moves_fail :: "move list" where
  "moves_fail =
     [Hand 0, Work 0 0, Work 0 0, Work 0 34, Work 0 0, Work 0 1, Work 0 0, Work 0 0,
      Complain 28, Close, Leave 0, Leave 1, Return]"

definition state_fail :: state where
  "state_fail = the (run env_fail moves_fail (init env_fail))"




section \<open>Proofs about the walk\<close>

lemma walker_None:
  "walker w p n None =
     (if is_root n then ([Send p], RSkipDir)
      else (if IsDir n
            then (case ReadDir n of
                    Inl e \<Rightarrow> [PErr (readdir_failed (pathstr w p) e)]
                  | Inr i \<Rightarrow> [])
            else [], RNil))"
  by (auto simp: walker_def is_root_def split: sum.splits)

lemma walker_Some: "walker w p n (Some e) = ([PErr (walk_failed (pathstr w p) e)], RNil)"
  by (simp add: walker_def)

lemma is_root_IsDir: "is_root n \<Longrightarrow> IsDir n"
  by (simp add: is_root_def)

lemma is_root_simps [simp]: "\<not> is_root File" "\<not> is_root (NoStat e)" "\<not> is_root (NoList e)"
  by (simp_all add: is_root_def)

text \<open>The walk of a node returns \<^verbatim>\<open>SkipDir\<close> exactly when the node is emitted.\<close>

lemma walk_ret:
  "snd (walk w p n) = (if is_root n then RSkipDir else RNil)"
  "snd (walk_names w p cs) = RNil"
proof (induction w p n and w p cs rule: walk_walk_names.induct)
  case (4 w p cs)
  then show ?case by (auto simp: walker_None split: prod.splits)
next
  case (6 w p n c cs)
  have "snd (walk w (p @ [n]) c) = RSkipDir \<Longrightarrow> IsDir c"
    using 6(1) by (auto split: if_splits dest: is_root_IsDir)
  then show ?case using 6(2) by (auto split: prod.splits)
qed (simp_all add: walker_None walker_Some)

lemma walk_Dir:
  "walk w p (Dir cs) =
     (if is_root (Dir cs) then ([Send p], RSkipDir)
      else ((case ReadDir (Dir cs) of
               Inl e \<Rightarrow> [PErr (readdir_failed (pathstr w p) e)]
             | Inr i \<Rightarrow> []) @ fst (walk_names w p cs), RNil))"
  using walk_ret(2)[of w p cs] by (auto simp: walker_None split: prod.splits)

lemma walk_names_Cons:
  "walk_names w p ((n, c) # cs) = (fst (walk w (p @ [n]) c) @ fst (walk_names w p cs), RNil)"
proof -
  have "snd (walk w (p @ [n]) c) = RSkipDir \<Longrightarrow> IsDir c"
    using walk_ret(1)[of w "p @ [n]" c] by (auto split: if_splits dest: is_root_IsDir)
  then show ?thesis using walk_ret(2)[of w p cs] by (auto split: prod.splits)
qed

lemma sends_append [simp]: "sends (a @ b) = sends a @ sends b"
  by (induction a rule: sends.induct) auto

text \<open>Whatever the walk of a node sends lies at or below that node.\<close>

lemma sends_prefix:
  "r \<in> set (sends (fst (walk w p n))) \<Longrightarrow> prefix p r"
  "r \<in> set (sends (fst (walk_names w p cs))) \<Longrightarrow> \<exists>x q. r = p @ x # q \<and> x \<in> fst ` set cs"
proof (induction w p n and w p cs arbitrary: r and r rule: walk_walk_names.induct)
  case (4 w p cs)
  show ?case
  proof (cases "is_root (Dir cs)")
    case True
    then show ?thesis using 4(2) by (simp add: walk_Dir del: walk.simps)
  next
    case False
    then have "walker w p (Dir cs) None = (fst (walker w p (Dir cs) None), RNil)"
      by (simp add: walker_None)
    from 4(1)[OF this[symmetric] refl, of r] 4(2) False show ?thesis
      by (auto simp: walk_Dir simp del: walk.simps split: sum.splits)
  qed
next
  case (6 w p n c cs)
  from 6(3) consider "r \<in> set (sends (fst (walk w (p @ [n]) c)))"
    | "r \<in> set (sends (fst (walk_names w p cs)))"
    by (auto simp: walk_names_Cons simp del: walk_names.simps)
  then show ?case
  proof cases
    case 1
    from 6(1)[OF this] show ?thesis by (cases r rule: rev_cases) (auto simp: prefix_def)
  next
    case 2
    have "\<not> (snd (walk w (p @ [n]) c) = RSkipDir \<and> \<not> IsDir c)"
      using walk_ret(1)[of w "p @ [n]" c] by (auto split: if_splits dest: is_root_IsDir)
    from 6(2)[OF prod.collapse this 2] show ?thesis by auto
  qed
qed (simp_all add: walker_None walker_Some)

lemma lookup_single: "lookup (Dir cs) [x] = map_of cs x"
  by (simp split: option.splits)

lemma count_list_absent: "x \<notin> set xs \<Longrightarrow> count_list xs x = 0"
  by (simp add: count_list_0_iff)

text \<open>
  How often a path is sent: once when the walk gets down to it and it is emitted there,
  never otherwise.
\<close>

lemma count_walk:
  "wf_fs n \<Longrightarrow>
   count_list (sends (fst (walk w p n))) (p @ q) =
     (if reaches n q \<and> (\<exists>m. lookup n q = Some m \<and> is_root m) then 1 else 0)"
  "distinct (map fst cs) \<Longrightarrow> (\<forall>(x, c) \<in> set cs. wf_fs c) \<Longrightarrow>
   count_list (sends (fst (walk_names w p cs))) (p @ x # q) =
     (case map_of cs x of
        None \<Rightarrow> 0
      | Some c \<Rightarrow> if reaches c q \<and> (\<exists>m. lookup c q = Some m \<and> is_root m) then 1 else 0)"
proof (induction w p n and w p cs arbitrary: q and x q rule: walk_walk_names.induct)
  case (1 w p)
  then show ?case by (cases q) (simp_all add: walker_None)
next
  case (2 w p e)
  then show ?case by (cases q) (simp_all add: walker_Some)
next
  case (3 w p e)
  then show ?case by (cases q) (simp_all add: walker_Some)
next
  case (4 w p cs)
  show ?case
  proof (cases "is_root (Dir cs)")
    case True
    then show ?thesis by (cases q) (simp_all add: walk_Dir del: walk.simps)
  next
    case False
    then have w: "walker w p (Dir cs) None = (fst (walker w p (Dir cs) None), RNil)"
      by (simp add: walker_None)
    have d: "distinct (map fst cs)" "\<forall>(x, c) \<in> set cs. wf_fs c" using 4(2) by auto
    show ?thesis
    proof (cases q)
      case Nil
      have "p \<notin> set (sends (fst (walk_names w p cs)))"
        using sends_prefix(2)[of p w p cs] by auto
      then show ?thesis using False Nil
        by (simp add: walk_Dir count_list_absent del: walk.simps split: sum.splits)
    next
      case (Cons x q')
      from 4(1)[OF w[symmetric] refl d, of x q'] False Cons show ?thesis
        by (simp add: walk_Dir lookup_single del: walk.simps split: sum.splits option.splits)
    qed
  qed
next
  case (5 w p)
  then show ?case by simp
next
  case (6 w p n c cs)
  have ns: "\<not> (snd (walk w (p @ [n]) c) = RSkipDir \<and> \<not> IsDir c)"
    using walk_ret(1)[of w "p @ [n]" c] by (auto split: if_splits dest: is_root_IsDir)
  have wfc: "wf_fs c" and d: "distinct (map fst cs)" "\<forall>(x, c) \<in> set cs. wf_fs c"
    and nn: "n \<notin> fst ` set cs"
    using 6(3,4) by auto
  show ?case
  proof (cases "x = n")
    case True
    have "p @ x # q \<notin> set (sends (fst (walk_names w p cs)))"
      using sends_prefix(2)[of "p @ x # q" w p cs] nn True by auto
    then show ?thesis using 6(1)[OF wfc, of q] True
      by (simp add: walk_names_Cons count_list_absent del: walk_names.simps)
  next
    case False
    have "p @ x # q \<notin> set (sends (fst (walk w (p @ [n]) c)))"
      using sends_prefix(1)[of "p @ x # q" w "p @ [n]" c] False by (auto simp: prefix_def)
    then show ?thesis using 6(2)[OF prod.collapse ns d, of x q] False
      by (simp add: walk_names_Cons count_list_absent del: walk_names.simps)
  qed
qed

lemma reaches_below: "reaches n (q @ x # r) \<Longrightarrow> lookup n q = Some m \<Longrightarrow> \<not> is_root m"
proof (induction q arbitrary: n)
  case Nil
  then show ?case by simp
next
  case (Cons y q)
  then show ?case by (cases n) (auto split: option.splits)
qed

lemma count_roots:
  "wf_fs fs \<Longrightarrow>
   count_list (roots w fs) q =
     (if reaches fs q \<and> (\<exists>m. lookup fs q = Some m \<and> is_root m) then 1 else 0)"
  using count_walk(1)[of fs w "[]" q] by (simp add: roots_def Walk_def)

lemma marker_iff: "marker cs \<longleftrightarrow> (\<exists>c. (''.git'', c) \<in> set cs \<and> IsDir c)"
  by (induction cs rule: marker.induct) auto

lemma lookup_append: "lookup n (p @ q) = (case lookup n p of Some m \<Rightarrow> lookup m q | None \<Rightarrow> None)"
proof (induction p arbitrary: n)
  case Nil
  then show ?case by simp
next
  case (Cons x p)
  then show ?case by (cases n) (auto split: option.splits)
qed

lemma reaches_iff:
  assumes "lookup n P = Some m"
  shows "reaches n P \<longleftrightarrow> (\<forall>Q k. strict_prefix Q P \<longrightarrow> lookup n Q = Some k \<longrightarrow> \<not> is_root k)"
  using assms
proof (induction P arbitrary: n)
  case Nil
  then show ?case by simp
next
  case (Cons x P)
  from Cons(2) obtain cs c where n: "n = Dir cs" "map_of cs x = Some c" "lookup c P = Some m"
    by (cases n) (auto split: option.splits)
  have "(\<forall>Q k. strict_prefix Q (x # P) \<longrightarrow> lookup n Q = Some k \<longrightarrow> \<not> is_root k)
      \<longleftrightarrow> \<not> is_root n \<and> (\<forall>Q k. strict_prefix Q P \<longrightarrow> lookup c Q = Some k \<longrightarrow> \<not> is_root k)"
    (is "?L \<longleftrightarrow> ?R")
  proof
    assume l: ?L
    have "\<not> is_root n" using l[rule_format, of "[]" n] by simp
    moreover have "\<not> is_root k" if "strict_prefix Q P" "lookup c Q = Some k" for Q k
      using l[rule_format, of "x # Q" k] that n by simp
    ultimately show ?R by blast
  next
    assume r: ?R
    show ?L
    proof (intro allI impI)
      fix Q k assume q: "strict_prefix Q (x # P)" "lookup n Q = Some k"
      show "\<not> is_root k"
      proof (cases Q)
        case Nil
        then show ?thesis using q r by simp
      next
        case (Cons y Q')
        then have "y = x" "strict_prefix Q' P" using q(1) by auto
        then show ?thesis using q(2) r n Cons by simp
      qed
    qed
  qed
  then show ?case using Cons(1)[OF n(3)] n by simp
qed

section \<open>Proofs about \<^verbatim>\<open>execute\<close>\<close>

lemma writes_append: "writes (a @ b) = writes a @ writes b"
  by (induction a rule: writes.induct) simp_all

lemma direct_output_append: "direct_output (a @ b) = direct_output a @ direct_output b"
  by (induction a rule: direct_output.induct) simp_all

lemma relays_append: "relays (a @ b) = relays a @ relays b"
  by (induction a rule: relays.induct) simp_all

lemma wbytes_append: "wbytes (a @ b) = wbytes a @ wbytes b"
  by (induction a rule: wbytes.induct) simp_all

lemma passthrough_proj:
  "writes (passthrough cs) = []" "direct_output (passthrough cs) = cs"
  "relays (passthrough cs) = []" "wbytes (passthrough cs) = []"
  by (induction cs rule: passthrough.induct) simp_all

lemma status_proj: "direct_output (status c dir ch) = []"
  by (simp add: status_def split: option.splits run_error.splits wait_status.splits)

lemma dump_proj: "direct_output (dump c ch) = []" "relays (dump c ch) = []"
  by (simp_all add: dump_def)

lemma before_lock_passthrough: "before_lock (passthrough cs @ Lock # as) = passthrough cs"
  by (induction cs rule: passthrough.induct) simp_all

lemma section_passthrough: "section_of (passthrough cs @ as) = section_of as"
  by (induction cs rule: passthrough.induct) simp_all

lemma takeWhile_Unlock: "Unlock \<notin> set as \<Longrightarrow> takeWhile (\<lambda>a. a \<noteq> Unlock) (as @ [Unlock]) = as"
  by (induction as) auto

lemma status_no_unlock: "Unlock \<notin> set (status c dir ch)" "Unlock \<notin> set (dump c ch)"
  by (auto simp: status_def dump_def split: option.splits run_error.splits wait_status.splits)

text \<open>The critical section of a call is its status report followed by the dump.\<close>

lemma section_execute: "section_of (execute c dir ch) = status c dir ch @ dump c ch"
  using takeWhile_Unlock[of "status c dir ch @ dump c ch"]
  by (simp add: execute_def section_passthrough status_no_unlock)


section \<open>Proofs about a run\<close>


lemma fire_cases [consumes 1, case_names complain hand shut leave return finish spawn childout acquire put relay crash release
    die abort]:
  assumes "fire e m s = Some t"
  obtains
    (complain) n bs ev where "m = Complain n" "todo s = PErr bs # ev" "piece n bs"
      "t = s\<lparr>todo := (if n = length bs then ev else PErr (drop n bs) # ev),
             outlog := outlog s @ emit Walker (lock s = Some Main) Stderr (take n bs)\<rparr>"
  | (hand) i p ev where "m = Hand i" "todo s = Send p # ev" "i < length (workers s)"
      "workers s ! i = Idle"
      "t = s\<lparr>todo := ev, sent := Suc (sent s),
             workers := (workers s)[i := Busy (sent s)
                (execute (cfg e) (pathstr (wher (cfg e)) p) (child_of e (sent s)))]\<rparr>"
  | (shut) "m = Close" "todo s = []" "\<not> chan_closed s" "t = s\<lparr>chan_closed := True\<rparr>"
  | (leave) i where "m = Leave i" "i < length (workers s)" "workers s ! i = Idle" "chan_closed s"
      "t = s\<lparr>workers := (workers s)[i := Gone]\<rparr>"
  | (return) "m = Return" "chan_closed s" "list_all (\<lambda>w. w = Gone) (workers s)"
      "t = s\<lparr>outcome := Exited 0\<rparr>"
  | (finish) i n k where "m = Work i n" "busy s i k []"
      "t = s\<lparr>workers := (workers s)[i := Idle]\<rparr>"
  | (spawn) i n k d as where "m = Work i n" "busy s i k (Run d # as)"
      "t = s\<lparr>workers := (workers s)[i := Busy k as], invoked := invoked s @ [(i, k, d)]\<rparr>"
  | (childout) i n k st bs as where "m = Work i n" "busy s i k (ChildOut st bs # as)" "piece n bs"
      "t = s\<lparr>workers := (workers s)[i := Busy k (if n = length bs then as
                                              else ChildOut st (drop n bs) # as)],
             outlog := outlog s @ emit (Child k) (lock s = Some (Worker i)) st (take n bs)\<rparr>"
  | (acquire) i n k as where "m = Work i n" "busy s i k (Lock # as)" "lock s = None"
      "t = s\<lparr>workers := (workers s)[i := Busy k as], lock := Some (Worker i)\<rparr>"
  | (put) i n k st bs as where "m = Work i n" "busy s i k (Write st bs # as)" "piece n bs"
      "t = s\<lparr>workers := (workers s)[i := Busy k (if n = length bs then as
                                              else Write st (drop n bs) # as)],
             outlog := outlog s @ emit (Report k) (lock s = Some (Worker i)) st (take n bs)\<rparr>"
  | (relay) i n k sg as where "m = Work i n" "busy s i k (Signal sg # as)"
      "t = s\<lparr>workers := (workers s)[i := Busy k as], relayed := relayed s @ [sg]\<rparr>"
  | (crash) i n k as where "m = Work i n" "busy s i k (Unlock # as)" "lock s = None"
      "t = s\<lparr>outcome := Crashed\<rparr>"
  | (release) i n k as where "m = Work i n" "busy s i k (Unlock # as)" "lock s \<noteq> None"
      "t = s\<lparr>workers := (workers s)[i := Busy k as], lock := None,
             reported := reported s @ [k]\<rparr>"
  | (die) sg where "m = Die sg" "sg \<in> set (relayed s)" "fatal e sg" "t = s\<lparr>outcome := Killed sg\<rparr>"
  | (abort) "m = Abort" "deadlocked s" "t = s\<lparr>outcome := Aborted\<rparr>"
proof (cases m)
  case (Complain n)
  with assms that(1) show ?thesis
    by (auto split: list.splits pevent.splits if_splits)
next
  case (Hand i)
  with assms that(2) show ?thesis
    by (auto split: list.splits pevent.splits if_splits)
next
  case Close
  with assms that(3) show ?thesis by (auto split: if_splits)
next
  case (Leave i)
  with assms that(4) show ?thesis by (auto split: if_splits)
next
  case Return
  with assms that(5) show ?thesis by (auto split: if_splits)
next
  case (Die sg)
  with assms that(14) show ?thesis by (auto split: if_splits)
next
  case Abort
  with assms that(15) show ?thesis by (auto split: if_splits)
next
  case (Work i n)
  with assms obtain k as where b: "busy s i k as" and a: "act e i k n as s = Some t"
    by (auto simp: busy_def split: if_splits wstate.splits)
  show ?thesis
  proof (cases as)
    case Nil
    with a b Work that(6) show ?thesis by auto
  next
    case (Cons x xs)
    with a b Work that(7-13) show ?thesis
      by (cases x) (auto split: if_splits)
  qed
qed

lemma shape_excl:
  "in_cs as \<Longrightarrow> \<not> pre_cs as" "in_cs as \<Longrightarrow> \<not> fresh as" "pre_cs as \<Longrightarrow> \<not> fresh as"
  "in_cs as \<Longrightarrow> as \<noteq> []" "pre_cs as \<Longrightarrow> as \<noteq> []" "fresh as \<Longrightarrow> as \<noteq> []"
  by (cases as rule: in_cs.cases; simp)+

lemma busy_simps [simp]:
  "busy (s\<lparr>todo := a\<rparr>) = busy s" "busy (s\<lparr>sent := b\<rparr>) = busy s"
  "busy (s\<lparr>chan_closed := c\<rparr>) = busy s" "busy (s\<lparr>lock := d\<rparr>) = busy s"
  "busy (s\<lparr>outlog := f\<rparr>) = busy s" "busy (s\<lparr>invoked := g\<rparr>) = busy s"
  "busy (s\<lparr>relayed := h\<rparr>) = busy s" "busy (s\<lparr>reported := r\<rparr>) = busy s"
  "busy (s\<lparr>outcome := oc\<rparr>) = busy s"
  by (simp_all add: busy_def fun_eq_iff)

lemma busy_update [simp]:
  "workers s' = workers s \<Longrightarrow> j < length (workers s) \<Longrightarrow>
   busy (s'\<lparr>workers := (workers s)[j := w]\<rparr>) i k as =
     (if i = j then w = Busy k as else busy s i k as)"
  by (auto simp: busy_def)

lemma busy_fun: "busy s i k as \<Longrightarrow> busy s i k' as' \<Longrightarrow> k' = k \<and> as' = as"
  by (simp add: busy_def)
lemma busy_len: "busy s i k as \<Longrightarrow> i < length (workers s)"
  by (simp add: busy_def)
lemma not_busy: "i < length (workers s) \<Longrightarrow> workers s ! i = Idle \<Longrightarrow> \<not> busy s i k as"
  by (simp add: busy_def)

lemma pre_cs_passthrough: "pre_cs (passthrough cs @ as) = pre_cs as"
  if "as \<noteq> []"
  using that by (induction cs rule: passthrough.induct) simp_all

lemma in_cs_tail: "in_cs (xs @ [Unlock]) = (\<forall>a \<in> set xs. (\<exists>st bs. a = Write st bs) \<or> (\<exists>sg. a = Signal sg))"
  by (induction xs rule: in_cs.induct) auto

lemma fresh_execute: "fresh (execute c dir ch)"
  by (auto simp: execute_def pre_cs_passthrough in_cs_tail status_def dump_def split: option.splits run_error.splits wait_status.splits)

lemma inv_lockD:
  "inv_lock s \<Longrightarrow> busy s i k as \<Longrightarrow>
     (as = [] \<or> fresh as \<or> pre_cs as \<or> in_cs as) \<and> (in_cs as \<longleftrightarrow> lock s = Some (Worker i))"
  unfolding inv_lock_def by blast

lemma inv_lock_fire:
  assumes "fire e m s = Some t" "inv_lock s"
  shows "inv_lock t"
  using assms
proof (cases rule: fire_cases)
  case (hand i p ev)
  then show ?thesis using assms(2) fresh_execute[of "cfg e" "pathstr (wher (cfg e)) p" "child_of e (sent s)"]
    by (auto simp: inv_lock_def nth_list_update dest: shape_excl)
next
  case (leave i)
  then show ?thesis using assms(2)
    by (auto simp: inv_lock_def nth_list_update)
next
  case (finish i n k)
  then show ?thesis using assms(2) inv_lockD[OF assms(2) finish(2)]
    by (auto simp: inv_lock_def busy_len nth_list_update dest: shape_excl)
next
  case (spawn i n k d as)
  then show ?thesis using assms(2) inv_lockD[OF assms(2) spawn(2)]
    by (auto simp: inv_lock_def busy_len nth_list_update dest: shape_excl)
next
  case (childout i n k st bs as)
  then show ?thesis using assms(2) inv_lockD[OF assms(2) childout(2)]
    by (auto simp: inv_lock_def busy_len nth_list_update dest: shape_excl)
next
  case (acquire i n k as)
  then show ?thesis using assms(2) inv_lockD[OF assms(2) acquire(2)]
    by (auto simp: inv_lock_def busy_len nth_list_update dest: shape_excl)
next
  case (put i n k st bs as)
  then show ?thesis using assms(2) inv_lockD[OF assms(2) put(2)]
    by (auto simp: inv_lock_def busy_len nth_list_update dest: shape_excl)
next
  case (relay i n k sg as)
  then show ?thesis using assms(2) inv_lockD[OF assms(2) relay(2)]
    by (auto simp: inv_lock_def busy_len nth_list_update dest: shape_excl)
next
  case (crash i n k as)
  then show ?thesis using assms(2) inv_lockD[OF assms(2) crash(2)]
    by (auto simp: inv_lock_def busy_len nth_list_update dest: shape_excl)
next
  case (release i n k as)
  then show ?thesis using assms(2) inv_lockD[OF assms(2) release(2)]
    by (auto simp: inv_lock_def busy_len nth_list_update dest: shape_excl)
qed (use assms(2) in \<open>auto simp: inv_lock_def\<close>)



lemma reports_append: "reports (a @ b) = reports a @ reports b"
  by (induction a rule: reports.induct) simp_all

lemma reports_emit:
  "reports (emit who h st bs) = (case who of Report k \<Rightarrow> replicate (length bs) k | _ \<Rightarrow> [])"
  by (induction bs) (auto simp: emit_def split: owner.splits)

lemma written_append: "written k (a @ b) = written k a @ written k b"
  by (induction a rule: written.induct) simp_all

lemma written_emit:
  "written k (emit who h st bs) = (if who = Report k then map (Pair st) bs else [])"
  by (induction bs) (auto simp: emit_def)

lemma written_absent: "k \<notin> set (reports l) \<Longrightarrow> written k l = []"
  by (induction l rule: reports.induct) auto

lemma in_emit: "x \<in> set (emit who h st bs) \<Longrightarrow> fst x = who \<and> fst (snd x) = h \<and> fst (snd (snd x)) = st"
  by (auto simp: emit_def)

lemma remdups_adj_snoc:
  "remdups_adj (xs @ [k]) = (if xs \<noteq> [] \<and> last xs = k then remdups_adj xs else remdups_adj xs @ [k])"
  by (induction xs rule: remdups_adj.induct) auto

lemma distinct_block:
  "distinct (remdups_adj xs) \<Longrightarrow> k \<notin> set xs \<or> (xs \<noteq> [] \<and> last xs = k) \<Longrightarrow>
   distinct (remdups_adj (xs @ replicate m k))"
proof (induction m)
  case 0
  then show ?case by simp
next
  case (Suc m)
  have e: "xs @ replicate (Suc m) k = (xs @ replicate m k) @ [k]"
    by (simp add: replicate_append_same)
  show ?case unfolding e remdups_adj_snoc using Suc
    by (cases m) (auto)
qed

lemma ids_snoc: "ids (l @ [(i, k, d)]) = ids l @ [k]"
  by (simp add: ids_def)

lemma inv_idsD:
  assumes "inv_ids s"
  shows "busy s i k as \<Longrightarrow> k < sent s"
    and "busy s i k as \<Longrightarrow> busy s j k as' \<Longrightarrow> i = j"
    and "k \<in> set (reports (outlog s)) \<Longrightarrow> k < sent s"
    and "k \<in> set (reported s) \<Longrightarrow> k < sent s"
    and "k \<in> set (ids (invoked s)) \<Longrightarrow> k < sent s"
  using assms unfolding inv_ids_def by blast+

lemma inv_ids_fire:
  assumes "fire e m s = Some t" "inv_ids s"
  shows "inv_ids t"
  using assms(1)
proof (cases rule: fire_cases)
  note D = inv_idsD[OF assms(2)]
  {
  case (hand i p ev)
  show ?thesis unfolding inv_ids_def
    by (intro conjI allI impI ballI; insert hand; 
        auto simp: reports_append reports_emit busy_len ids_snoc split: if_splits owner.splits dest: D)
next
  case (finish i n k)
  show ?thesis unfolding inv_ids_def
    by (intro conjI allI impI ballI; insert finish; 
        auto simp: reports_append reports_emit busy_len ids_snoc split: if_splits owner.splits dest: D)
next
  case (spawn i n k d as)
  show ?thesis unfolding inv_ids_def
    by (intro conjI allI impI ballI; insert spawn; 
        auto simp: reports_append reports_emit busy_len ids_snoc split: if_splits owner.splits dest: D)
next
  case (childout i n k st bs as)
  show ?thesis unfolding inv_ids_def
    by (intro conjI allI impI ballI; insert childout; 
        auto simp: reports_append reports_emit busy_len ids_snoc split: if_splits owner.splits dest: D)
next
  case (acquire i n k as)
  show ?thesis unfolding inv_ids_def
    by (intro conjI allI impI ballI; insert acquire; 
        auto simp: reports_append reports_emit busy_len ids_snoc split: if_splits owner.splits dest: D)
next
  case (put i n k st bs as)
  show ?thesis unfolding inv_ids_def
    by (intro conjI allI impI ballI; insert put; 
        auto simp: reports_append reports_emit busy_len ids_snoc split: if_splits owner.splits dest: D)
next
  case (relay i n k sg as)
  show ?thesis unfolding inv_ids_def
    by (intro conjI allI impI ballI; insert relay; 
        auto simp: reports_append reports_emit busy_len ids_snoc split: if_splits owner.splits dest: D)
next
  case (release i n k as)
  show ?thesis unfolding inv_ids_def
    by (intro conjI allI impI ballI; insert release; 
        auto simp: reports_append reports_emit busy_len ids_snoc split: if_splits owner.splits dest: D)
next
  case (leave i)
  show ?thesis unfolding inv_ids_def
    by (intro conjI allI impI ballI; insert leave; 
        auto simp: reports_append reports_emit busy_len ids_snoc split: if_splits owner.splits dest: D)
next
  case (complain n bs ev)
  show ?thesis unfolding inv_ids_def
    by (intro conjI allI impI ballI; insert complain; 
        auto simp: reports_append reports_emit busy_len ids_snoc split: if_splits owner.splits dest: D)
next
  case (shut)
  show ?thesis unfolding inv_ids_def
    by (intro conjI allI impI ballI; insert shut; 
        auto simp: reports_append reports_emit busy_len ids_snoc split: if_splits owner.splits dest: D)
next
  case (return)
  show ?thesis unfolding inv_ids_def
    by (intro conjI allI impI ballI; insert return; 
        auto simp: reports_append reports_emit busy_len ids_snoc split: if_splits owner.splits dest: D)
next
  case (crash i n k as)
  show ?thesis unfolding inv_ids_def
    by (intro conjI allI impI ballI; insert crash; 
        auto simp: reports_append reports_emit busy_len ids_snoc split: if_splits owner.splits dest: D)
next
  case (die sg)
  show ?thesis unfolding inv_ids_def
    by (intro conjI allI impI ballI; insert die;
        auto simp: reports_append reports_emit busy_len ids_snoc split: if_splits owner.splits dest: D)
next
  case abort
  show ?thesis unfolding inv_ids_def
    by (intro conjI allI impI ballI; insert abort;
        auto simp: reports_append reports_emit busy_len ids_snoc split: if_splits owner.splits dest: D)
  }
qed


lemma drop_eq_Cons: "drop n xs = y # ys \<Longrightarrow> drop (Suc n) xs = ys \<and> n < length xs \<and> xs ! n = y"
  by (metis Cons_nth_drop_Suc drop_all drop_eq_Nil list.distinct(1) list.inject not_le_imp_less)

lemma inv_chan_fire:
  assumes "fire e m s = Some t" "inv_chan e s"
  shows "inv_chan e t"
  using assms(1)
proof (cases rule: fire_cases)
  case (hand i p ev)
  from assms(2) hand(2) have "drop (sent s) (found e) = p # sends ev"
    by (simp add: inv_chan_def)
  from drop_eq_Cons[OF this] show ?thesis using assms(2) hand
    by (auto simp: inv_chan_def nth_list_update)
next
  case (finish i n k)
  then show ?thesis using assms(2) busy_len[OF finish(2)]
    by (auto simp: inv_chan_def nth_list_update split: if_splits)
next
  case (spawn i n k d as)
  then show ?thesis using assms(2) busy_len[OF spawn(2)]
    by (auto simp: inv_chan_def nth_list_update split: if_splits)
next
  case (childout i n k st bs as)
  then show ?thesis using assms(2) busy_len[OF childout(2)]
    by (auto simp: inv_chan_def nth_list_update split: if_splits)
next
  case (acquire i n k as)
  then show ?thesis using assms(2) busy_len[OF acquire(2)]
    by (auto simp: inv_chan_def nth_list_update split: if_splits)
next
  case (put i n k st bs as)
  then show ?thesis using assms(2) busy_len[OF put(2)]
    by (auto simp: inv_chan_def nth_list_update split: if_splits)
next
  case (relay i n k sg as)
  then show ?thesis using assms(2) busy_len[OF relay(2)]
    by (auto simp: inv_chan_def nth_list_update split: if_splits)
next
  case (release i n k as)
  then show ?thesis using assms(2) busy_len[OF release(2)]
    by (auto simp: inv_chan_def nth_list_update split: if_splits)
next
  case (crash i n k as)
  then show ?thesis using assms(2) busy_len[OF crash(2)]
    by (auto simp: inv_chan_def nth_list_update split: if_splits)
next
  case (die sg)
  then show ?thesis using assms(2)
    by (auto simp: inv_chan_def)
next
  case abort
  then show ?thesis using assms(2)
    by (auto simp: inv_chan_def)
next
  case (leave i)
  then show ?thesis using assms(2)
    by (auto simp: inv_chan_def nth_list_update split: if_splits)
next
  case (complain n bs ev)
  then show ?thesis using assms(2)
    by (auto simp: inv_chan_def nth_list_update split: if_splits)
next
  case (shut)
  then show ?thesis using assms(2)
    by (auto simp: inv_chan_def nth_list_update split: if_splits)
next
  case (return)
  then show ?thesis using assms(2)
    by (auto simp: inv_chan_def nth_list_update split: if_splits)
qed

lemma inv_logD:
  assumes "inv_log s"
  shows "distinct (remdups_adj (reports (outlog s)))"
    and "busy s i k as \<Longrightarrow> as \<noteq> [] \<Longrightarrow> \<not> in_cs as \<Longrightarrow> k \<notin> set (reports (outlog s))"
    and "busy s i k as \<Longrightarrow> in_cs as \<Longrightarrow> k \<in> set (reports (outlog s)) \<Longrightarrow> last (reports (outlog s)) = k"
    and "x \<in> set (outlog s) \<Longrightarrow> fst (snd x) \<longleftrightarrow> (\<exists>k. fst x = Report k)"
    and "x \<in> set (outlog s) \<Longrightarrow> fst x = Walker \<Longrightarrow> fst (snd (snd x)) = Stderr"
  using assms unfolding inv_log_def by blast+

lemma inv_log_fire:
  assumes "fire e m s = Some t" "inv_lock s" "inv_ids s" "inv_log s"
  shows "inv_log t"
  using assms(1)
proof (cases rule: fire_cases)
  note D = inv_logD[OF assms(4)] and I = inv_idsD[OF assms(3)]
  {
  case (hand i p ev)
  show ?thesis unfolding inv_log_def
    by (intro conjI allI impI ballI; insert hand D(1);
        auto simp: reports_append reports_emit busy_len split: if_splits owner.splits dest: D(2-) I)
next
  case (finish i n k)
  show ?thesis unfolding inv_log_def
    by (intro conjI allI impI ballI; insert finish D(1);
        auto simp: reports_append reports_emit busy_len split: if_splits owner.splits dest: D(2-) I)
next
  case (spawn i n k d as)
  note L = inv_lockD[OF assms(2) spawn(2)]
  show ?thesis unfolding inv_log_def
    by (intro conjI allI impI ballI; insert spawn D(1) L D(2)[OF spawn(2)];
        auto simp: reports_append reports_emit busy_len split: if_splits owner.splits dest: D(2-) I shape_excl)
next
  case (childout i n k st bs as)
  note L = inv_lockD[OF assms(2) childout(2)]
  show ?thesis unfolding inv_log_def
    by (intro conjI allI impI ballI; insert childout D(1) L D(2)[OF childout(2)];
        auto simp: reports_append reports_emit busy_len split: if_splits owner.splits dest: D(2-) I shape_excl in_emit)
next
  case (acquire i n k as)
  note L = inv_lockD[OF assms(2) acquire(2)]
  show ?thesis unfolding inv_log_def
    by (intro conjI allI impI ballI; insert acquire D(1) L D(2)[OF acquire(2)];
        auto simp: reports_append reports_emit busy_len split: if_splits owner.splits dest: D(2-) I shape_excl)
next
  case (put i n k st bs as)
  note L = inv_lockD[OF assms(2) put(2)]
  let ?R = "reports (outlog s)" and ?m = "length (take n bs)"
  let ?as = "if n = length bs then as else Write st (drop n bs) # as"
  have cs: "in_cs as" "lock s = Some (Worker i)" "in_cs ?as" using L by auto
  have R: "reports (outlog t) = ?R @ replicate ?m k"
    using put(4) by (simp add: reports_append reports_emit)
  have own: "k \<notin> set ?R \<or> (?R \<noteq> [] \<and> last ?R = k)"
    using D(3)[OF put(2)] cs(1) by auto
  have 1: "distinct (remdups_adj (reports (outlog t)))"
    unfolding R by (rule distinct_block[OF D(1) own])
  have bt: "busy t j k' as' \<longleftrightarrow> (if j = i then k' = k \<and> as' = ?as else busy s j k' as')" for j k' as'
    using put(4) busy_len[OF put(2)] by auto
  have 2: "k' \<notin> set (reports (outlog t))" if "busy t j k' as'" "as' \<noteq> []" "\<not> in_cs as'" for j k' as'
  proof -
    from that cs(3) bt[of j k' as'] have j: "j \<noteq> i" "busy s j k' as'" by (auto split: if_splits)
    then have "k' \<noteq> k" using I(2)[OF put(2), of j] by auto
    then show ?thesis using D(2)[OF j(2) that(2,3)] unfolding R by auto
  qed
  have 3: "last (reports (outlog t)) = k'" if "busy t j k' as'" "in_cs as'" "k' \<in> set (reports (outlog t))" for j k' as'
  proof (cases "j = i")
    case True
    then have k: "k' = k" using that(1) bt[of j k' as'] by simp
    show ?thesis
    proof (cases "?m = 0")
      case True
      then show ?thesis using that(3) own k unfolding R by auto
    next
      case False
      then show ?thesis unfolding R k by simp
    qed
  next
    case False
    then have "busy s j k' as'" using that(1) bt[of j k' as'] by simp
    from inv_lockD[OF assms(2) this] that(2) cs(2) False show ?thesis by simp
  qed
  have 4: "(fst (snd x) \<longleftrightarrow> (\<exists>k. fst x = Report k)) \<and> (fst x = Walker \<longrightarrow> fst (snd (snd x)) = Stderr)"
    if "x \<in> set (outlog t)" for x
    using that put(4) cs(2) D(4,5)[of x] by (auto dest: in_emit)
  show ?thesis unfolding inv_log_def using 1 2 3 4 by blast
next
  case (relay i n k sg as)
  note L = inv_lockD[OF assms(2) relay(2)]
  show ?thesis unfolding inv_log_def
    by (intro conjI allI impI ballI; insert relay D(1) L D(3)[OF relay(2)];
        auto simp: reports_append reports_emit busy_len split: if_splits owner.splits dest: D(2-) I shape_excl)
next
  case (release i n k as)
  note L = inv_lockD[OF assms(2) release(2)]
  show ?thesis unfolding inv_log_def
    by (intro conjI allI impI ballI; insert release D(1) L;
        auto simp: reports_append reports_emit busy_len split: if_splits owner.splits dest: D(2-) I shape_excl)
next
  case (leave i)
  show ?thesis unfolding inv_log_def
    by (intro conjI allI impI ballI; insert leave D(1);
        auto simp: reports_append reports_emit busy_len split: if_splits owner.splits dest: D(2-) I)
next
  case (complain n bs ev)
  have "lock s \<noteq> Some Main" using assms(2) by (simp add: inv_lock_def)
  then show ?thesis unfolding inv_log_def
    by (intro conjI allI impI ballI; insert complain D(1);
        auto simp: reports_append reports_emit busy_len split: if_splits owner.splits dest: D(2-) I in_emit)
next
  case shut
  show ?thesis unfolding inv_log_def
    by (intro conjI allI impI ballI; insert shut D(1);
        auto simp: reports_append reports_emit busy_len split: if_splits owner.splits dest: D(2-) I)
next
  case return
  show ?thesis unfolding inv_log_def
    by (intro conjI allI impI ballI; insert return D(1);
        auto simp: reports_append reports_emit busy_len split: if_splits owner.splits dest: D(2-) I)
next
  case (crash i n k as)
  show ?thesis unfolding inv_log_def
    by (intro conjI allI impI ballI; insert crash D(1);
        auto simp: reports_append reports_emit busy_len split: if_splits owner.splits dest: D(2-) I)
next
  case (die sg)
  show ?thesis unfolding inv_log_def
    by (intro conjI allI impI ballI; insert die D(1);
        auto simp: reports_append reports_emit busy_len split: if_splits owner.splits dest: D(2-) I)
next
  case abort
  show ?thesis unfolding inv_log_def
    by (intro conjI allI impI ballI; insert abort D(1);
        auto simp: reports_append reports_emit busy_len split: if_splits owner.splits dest: D(2-) I)
  }
qed


lemma inv_planD:
  assumes "inv_plan e s"
  shows "busy s i k as \<Longrightarrow> written k (outlog s) @ wbytes as = wbytes (plan e k)"
    and "busy s i k as \<Longrightarrow> fresh as \<Longrightarrow> as = plan e k"
    and "busy s i k as \<Longrightarrow> sg \<in> set (relays as) \<Longrightarrow> sg \<in> set (relays (plan e k))"
    and "busy s i k as \<Longrightarrow> direct_output as \<noteq> [] \<Longrightarrow> concurrency (cfg e) = 1"
    and "busy s i k as \<Longrightarrow> k \<in> set (reported s) \<Longrightarrow> as = []"
    and "k \<in> set (reported s) \<Longrightarrow> written k (outlog s) = wbytes (plan e k)"
    and "x \<in> set (outlog s) \<Longrightarrow> fst x = Child k \<Longrightarrow> concurrency (cfg e) = 1"
  using assms unfolding inv_plan_def by blast+

lemma inv_planI:
  assumes "\<And>i k as. busy s i k as \<Longrightarrow> written k (outlog s) @ wbytes as = wbytes (plan e k)"
    and "\<And>i k as. busy s i k as \<Longrightarrow> fresh as \<Longrightarrow> as = plan e k"
    and "\<And>i k as sg. busy s i k as \<Longrightarrow> sg \<in> set (relays as) \<Longrightarrow> sg \<in> set (relays (plan e k))"
    and "\<And>i k as. busy s i k as \<Longrightarrow> direct_output as \<noteq> [] \<Longrightarrow> concurrency (cfg e) = 1"
    and "\<And>i k as. busy s i k as \<Longrightarrow> k \<in> set (reported s) \<Longrightarrow> as = []"
    and "\<And>k. k \<in> set (reported s) \<Longrightarrow> written k (outlog s) = wbytes (plan e k)"
    and "\<And>x k. x \<in> set (outlog s) \<Longrightarrow> fst x = Child k \<Longrightarrow> concurrency (cfg e) = 1"
  shows "inv_plan e s"
  using assms unfolding inv_plan_def by blast

lemma direct_output_execute:
  "direct_output (execute c dir ch) \<noteq> [] \<Longrightarrow> concurrency c = 1"
  by (auto simp: execute_def direct_output_append passthrough_proj status_proj dump_proj split: if_splits)

lemma inv_plan_fire:
  assumes "fire e m s = Some t" "inv_lock s" "inv_ids s" "inv_chan e s" "inv_log s" "inv_plan e s"
  shows "inv_plan e t"
  using assms(1)
proof (cases rule: fire_cases)
  note D = inv_planD[OF assms(6)] and I = inv_idsD[OF assms(3)]
  {
  case (hand i p ev)
  from assms(4) hand(2) have "drop (sent s) (found e) = p # sends ev"
    by (simp add: inv_chan_def)
  from drop_eq_Cons[OF this] have p: "execute (cfg e) (pathstr (wher (cfg e)) p) (child_of e (sent s)) = plan e (sent s)"
    by (simp add: plan_def dir_of_def)
  have w: "written (sent s) (outlog s) = []"
    using I(3)[of "sent s"] by (auto intro: written_absent)
  have r: "sent s \<notin> set (reported s)" using I(4)[of "sent s"] by auto
  show ?thesis
    by (rule inv_planI; insert hand p w r direct_output_execute[of "cfg e" "dir_of e (sent s)" "child_of e (sent s)"];
        auto simp: plan_def split: if_splits dest: D)
next
  case (finish i n k)
  show ?thesis
    by (rule inv_planI; insert finish busy_len[OF finish(2)]; auto split: if_splits dest: D)
next
  case (spawn i n k d as)
  note L = inv_lockD[OF assms(2) spawn(2)]
  show ?thesis
    by (rule inv_planI; insert spawn busy_len[OF spawn(2)] L D(1,3,4,5)[OF spawn(2)]; auto split: if_splits dest: D shape_excl)
next
  case (childout i n k st bs as)
  note L = inv_lockD[OF assms(2) childout(2)]
  show ?thesis
    by (rule inv_planI; insert childout busy_len[OF childout(2)] L D(1,3,4,5)[OF childout(2)];
        auto simp: written_append written_emit split: if_splits dest: D shape_excl in_emit)
next
  case (acquire i n k as)
  note L = inv_lockD[OF assms(2) acquire(2)]
  show ?thesis
    by (rule inv_planI; insert acquire busy_len[OF acquire(2)] L D(1,3,4,5)[OF acquire(2)]; auto split: if_splits dest: D shape_excl)
next
  case (put i n k st bs as)
  note L = inv_lockD[OF assms(2) put(2)]
  have nr: "k \<notin> set (reported s)" using D(5)[OF put(2)] by auto
  have ne: "k' \<noteq> k" if "busy s j k' as'" "j \<noteq> i" for j k' as'
    using I(2)[OF put(2), of j as'] that by auto
  have td: "map (Pair st) (take n bs) @ map (Pair st) (drop n bs) @ z = map (Pair st) bs @ z" for z
    by (simp flip: map_append append_assoc)
  show ?thesis
    by (rule inv_planI; insert put busy_len[OF put(2)] L D(1,3,4)[OF put(2)] nr;
        auto simp: written_append written_emit td split: if_splits dest: D ne shape_excl in_emit)
next
  case (relay i n k sg as)
  note L = inv_lockD[OF assms(2) relay(2)]
  show ?thesis
    by (rule inv_planI; insert relay busy_len[OF relay(2)] L D(1,3,4,5)[OF relay(2)]; auto split: if_splits dest: D shape_excl)
next
  case (release i n k as)
  note L = inv_lockD[OF assms(2) release(2)]
  show ?thesis 
    by (rule inv_planI; insert release busy_len[OF release(2)] L D(1,3,4,5)[OF release(2)]; auto split: if_splits dest: D I shape_excl)
next
  case (leave i)
  show ?thesis
    by (rule inv_planI; insert leave; auto split: if_splits dest: D)
next
  case (complain n bs ev)
  show ?thesis
    by (rule inv_planI; insert complain; auto  simp: written_append written_emit split: if_splits dest: D in_emit)
next
  case shut
  show ?thesis
    by (rule inv_planI; insert shut; auto split: if_splits dest: D)
next
  case return
  show ?thesis
    by (rule inv_planI; insert return; auto split: if_splits dest: D)
next
  case (crash i n k as)
  show ?thesis
    by (rule inv_planI; insert crash; auto split: if_splits dest: D)
next
  case (die sg)
  show ?thesis
    by (rule inv_planI; insert die; auto split: if_splits dest: D)
next
  case abort
  show ?thesis
    by (rule inv_planI; insert abort; auto split: if_splits dest: D)
  }
qed


lemma inv_invokedD:
  assumes "inv_invoked e s"
  shows "x \<in> set (invoked s) \<Longrightarrow> snd (snd x) = dir_of e (fst (snd x))"
    and "distinct (ids (invoked s))"
    and "busy s i k as \<Longrightarrow> fresh as \<Longrightarrow> k \<notin> set (ids (invoked s))"
    and "k < sent s \<Longrightarrow> k \<notin> set (ids (invoked s)) \<Longrightarrow> \<exists>i as. busy s i k as \<and> fresh as"
  using assms unfolding inv_invoked_def by blast+

lemma inv_invokedI:
  assumes "\<And>x. x \<in> set (invoked s) \<Longrightarrow> snd (snd x) = dir_of e (fst (snd x))"
    and "distinct (ids (invoked s))"
    and "\<And>i k as. busy s i k as \<Longrightarrow> fresh as \<Longrightarrow> k \<notin> set (ids (invoked s))"
    and "\<And>k. k < sent s \<Longrightarrow> k \<notin> set (ids (invoked s)) \<Longrightarrow> \<exists>i as. busy s i k as \<and> fresh as"
  shows "inv_invoked e s"
  using assms unfolding inv_invoked_def by blast

text \<open>A step of a worker that is not fresh leaves the fresh workers as they are.\<close>

lemma inv_invoked_step:
  assumes "inv_invoked e s" "workers t = (workers s)[i := w]"
    "\<And>k bs. busy s i k bs \<Longrightarrow> \<not> fresh bs" "\<And>k bs. w = Busy k bs \<Longrightarrow> \<not> fresh bs"
    "invoked t = invoked s" "sent t = sent s"
  shows "inv_invoked e t"
proof -
  have eq: "busy t j k' bs \<and> fresh bs \<longleftrightarrow> busy s j k' bs \<and> fresh bs" for j k' bs
    using assms(2,3,4) by (cases "j = i") (auto simp: busy_def)
  note D = inv_invokedD[OF assms(1)]
  show ?thesis
  proof (rule inv_invokedI)
    fix k assume "k < sent t" "k \<notin> set (ids (invoked t))"
    then have "\<exists>j bs. busy s j k bs \<and> fresh bs" using D(4)[of k] assms(5,6) by simp
    then show "\<exists>j bs. busy t j k bs \<and> fresh bs" using eq by blast
  next
    fix j k bs assume "busy t j k bs" "fresh bs"
    then have "busy s j k bs" using eq by blast
    then show "k \<notin> set (ids (invoked t))" using D(3) \<open>fresh bs\<close> assms(5) by simp
  qed (use D(1,2) assms(5) in auto)
qed

lemma inv_invoked_fire:
  assumes "fire e m s = Some t" "inv_lock s" "inv_ids s" "inv_plan e s" "inv_invoked e s"
  shows "inv_invoked e t"
  using assms(1)
proof (cases rule: fire_cases)
  note D = inv_invokedD[OF assms(5)] and I = inv_idsD[OF assms(3)]
  {
  case (hand i p ev)
  have bt: "busy t j k bs \<longleftrightarrow> (if j = i then k = sent s \<and> bs = execute (cfg e) (pathstr (wher (cfg e)) p) (child_of e (sent s)) else busy s j k bs)" for j k bs
    using hand by auto
  have nb: "\<not> busy s i k bs" for k bs using hand(3,4) by (simp add: busy_def)
  have 4: "\<exists>j bs. busy t j k bs \<and> fresh bs" if "k < sent t" "k \<notin> set (ids (invoked t))" for k
  proof (cases "k = sent s")
    case True
    then have "busy t i k (execute (cfg e) (pathstr (wher (cfg e)) p) (child_of e (sent s)))"
      using bt[of i k] by simp
    then show ?thesis using fresh_execute by blast
  next
    case False
    then have "k < sent s" "k \<notin> set (ids (invoked s))" using that hand(5) by auto
    from D(4)[OF this] obtain j bs where "busy s j k bs" "fresh bs" by blast
    then show ?thesis using bt[of j k bs] nb[of k bs] by (cases "j = i") auto
  qed
  show ?thesis
    by (rule inv_invokedI; (rule 4, assumption+)?; insert hand D(2); auto split: if_splits dest: D(1,3) I)
next
  case (finish i n k)
  note L = inv_lockD[OF assms(2) finish(2)]
  show ?thesis
    by (rule inv_invoked_step[OF assms(5), where i = i and w = "Idle"]; insert finish L;
        auto dest: busy_fun[OF finish(2)] shape_excl split: if_splits)
next
  case (spawn i n k d as)
  note L = inv_lockD[OF assms(2) spawn(2)]
  have pre: "pre_cs as" "\<not> fresh as" using L by (auto dest: shape_excl)
  have "Run d # as = plan e k" using inv_planD(2)[OF assms(4) spawn(2)] pre(1) by simp
  then have d: "d = dir_of e k" by (simp add: plan_def execute_def)
  have k: "k \<notin> set (ids (invoked s))" using D(3)[OF spawn(2)] pre(1) by simp
  have bt: "busy t j k' bs \<longleftrightarrow> (if j = i then k' = k \<and> bs = as else busy s j k' bs)" for j k' bs
    using spawn(3) busy_len[OF spawn(2)] by auto
  have iv: "invoked t = invoked s @ [(i, k, d)]" "sent t = sent s" using spawn(3) by auto
  have 3: "k' \<notin> set (ids (invoked t))" if "busy t j k' bs" "fresh bs" for j k' bs
  proof -
    from that bt[of j k' bs] pre(2) have j: "j \<noteq> i" "busy s j k' bs" by (auto split: if_splits)
    then have "k' \<noteq> k" using I(2)[OF spawn(2), of j bs] by auto
    then show ?thesis using D(3)[OF j(2) that(2)] by (simp add: iv ids_snoc)
  qed
  have 4: "\<exists>j bs. busy t j k' bs \<and> fresh bs" if "k' < sent t" "k' \<notin> set (ids (invoked t))" for k'
  proof -
    from that have "k' \<noteq> k" "k' < sent s" "k' \<notin> set (ids (invoked s))" by (auto simp: iv ids_snoc)
    from D(4)[OF this(2,3)] obtain j bs where j: "busy s j k' bs" "fresh bs" by blast
    then have "j \<noteq> i" using busy_fun[OF spawn(2), of k' bs] \<open>k' \<noteq> k\<close> by auto
    then have "busy t j k' bs" using bt[of j k' bs] j(1) by simp
    then show ?thesis using j(2) by blast
  qed
  have 1: "snd (snd x) = dir_of e (fst (snd x))" if "x \<in> set (invoked t)" for x
    using that D(1)[of x] d by (auto simp: iv)
  have 2: "distinct (ids (invoked t))" using D(2) k by (simp add: iv ids_snoc)
  show ?thesis by (rule inv_invokedI) (use 1 2 3 4 in blast)+
next
  case (childout i n k st bs as)
  note L = inv_lockD[OF assms(2) childout(2)]
  show ?thesis
    by (rule inv_invoked_step[OF assms(5), where i = i and w = "Busy k (if n = length bs then as else ChildOut st (drop n bs) # as)"]; insert childout L;
        auto dest: busy_fun[OF childout(2)] shape_excl split: if_splits)
next
  case (acquire i n k as)
  note L = inv_lockD[OF assms(2) acquire(2)]
  show ?thesis
    by (rule inv_invoked_step[OF assms(5), where i = i and w = "Busy k as"]; insert acquire L;
        auto dest: busy_fun[OF acquire(2)] shape_excl split: if_splits)
next
  case (put i n k st bs as)
  note L = inv_lockD[OF assms(2) put(2)]
  show ?thesis
    by (rule inv_invoked_step[OF assms(5), where i = i and w = "Busy k (if n = length bs then as else Write st (drop n bs) # as)"]; insert put L;
        auto dest: busy_fun[OF put(2)] shape_excl split: if_splits)
next
  case (relay i n k sg as)
  note L = inv_lockD[OF assms(2) relay(2)]
  show ?thesis
    by (rule inv_invoked_step[OF assms(5), where i = i and w = "Busy k as"]; insert relay L;
        auto dest: busy_fun[OF relay(2)] shape_excl split: if_splits)
next
  case (release i n k as)
  note L = inv_lockD[OF assms(2) release(2)]
  show ?thesis
    by (rule inv_invoked_step[OF assms(5), where i = i and w = "Busy k as"]; insert release L;
        auto dest: busy_fun[OF release(2)] shape_excl split: if_splits)
next
  case (leave i)
  show ?thesis
    by (rule inv_invoked_step[OF assms(5), where i = i and w = Gone]; insert leave; auto simp: busy_def)
next
  case (complain n bs ev)
  show ?thesis
    by (intro inv_invokedI; insert complain D(2); auto split: if_splits dest: D(1,3,4) I)
next
  case shut
  show ?thesis
    by (intro inv_invokedI; insert shut D(2); auto split: if_splits dest: D(1,3,4) I)
next
  case return
  show ?thesis
    by (intro inv_invokedI; insert return D(2); auto split: if_splits dest: D(1,3,4) I)
next
  case (crash i n k as)
  show ?thesis
    by (intro inv_invokedI; insert crash D(2); auto split: if_splits dest: D(1,3,4) I)
next
  case (die sg)
  show ?thesis
    by (intro inv_invokedI; insert die D(2); auto split: if_splits dest: D(1,3,4) I)
next
  case abort
  show ?thesis
    by (intro inv_invokedI; insert abort D(2); auto split: if_splits dest: D(1,3,4) I)
  }
qed


text \<open>Where every goroutine is blocked, there is no worker at all.\<close>

lemma deadlocked_no_workers:
  assumes "inv_lock s" "inv_chan e s" "deadlocked s"
  shows "workers s = []"
proof (rule ccontr)
  assume ne: "workers s \<noteq> []"
  from assms(3) have mw: "main_waits s" and w: "\<And>i. i < length (workers s) \<Longrightarrow> waits s (workers s ! i)"
    by (auto simp: deadlocked_def list_all_length)
  have nb: "\<not> busy s i k as" for i k as
  proof
    assume b: "busy s i k as"
    then have "waits s (Busy k as)" using w[of i] by (simp add: busy_def)
    then obtain as' where as: "as = Lock # as'" and "lock s \<noteq> None" by (cases as) auto
    then obtain h where h: "lock s = Some h" by auto
    with assms(1) obtain j where j: "h = Worker j" by (cases h) (auto simp: inv_lock_def)
    with assms(1) h have "j < length (workers s)" "workers s ! j \<noteq> Idle" "workers s ! j \<noteq> Gone"
      by (auto simp: inv_lock_def)
    then obtain k' bs where bj: "busy s j k' bs" by (cases "workers s ! j") (auto simp: busy_def)
    from inv_lockD[OF assms(1) bj] h j have "in_cs bs" by simp
    moreover have "waits s (Busy k' bs)" using w[of j] bj by (simp add: busy_def)
    ultimately show False by (cases bs) auto
  qed
  have ig: "workers s ! i = Idle \<or> workers s ! i = Gone" if "i < length (workers s)" for i
    using nb[of i] that by (cases "workers s ! i") (auto simp: busy_def)
  show False
  proof (cases "todo s")
    case Nil
    with mw have c: "chan_closed s" and "\<not> list_all (\<lambda>w. w = Gone) (workers s)"
      by (auto simp: main_waits_def)
    then obtain i where i: "i < length (workers s)" "workers s ! i \<noteq> Gone"
      by (auto simp: list_all_length)
    then have "workers s ! i = Idle" using ig by blast
    then show False using w[OF i(1)] c by simp
  next
    case (Cons a ev)
    show False
    proof (cases a)
      case (Send p)
      with mw Cons have ni: "Idle \<notin> set (workers s)" by (simp add: main_waits_def)
      from ne have l: "0 < length (workers s)" by simp
      have "workers s ! 0 \<in> set (workers s)" by (rule nth_mem[OF l])
      then have "workers s ! 0 = Gone" using ig[OF l] ni by metis
      moreover have "\<forall>i < length (workers s). workers s ! i = Gone \<longrightarrow> chan_closed s"
        using assms(2) by (simp add: inv_chan_def)
      ultimately have "chan_closed s" using l by blast
      then show False using assms(2) Cons by (auto simp: inv_chan_def)
    next
      case (PErr bs)
      with mw Cons show False by (simp add: main_waits_def)
    qed
  qed
qed

lemma inv_outcome_fire:
  assumes "fire e m s = Some t" "outcome s = Running" "inv_lock s" "inv_ids s" "inv_chan e s"
    "inv_plan e s" "inv_outcome e s"
  shows "inv_outcome e t"
  using assms(1)
proof (cases rule: fire_cases)
  case (hand i p ev)
  have "\<exists>k<Suc (sent s). sg \<in> set (relays (plan e k))" if "sg \<in> set (relayed s)" for sg
    using assms(7) that less_Suc_eq unfolding inv_outcome_def by blast
  then show ?thesis using hand assms(2) by (auto simp: inv_outcome_def)
next
  case (relay i n k sg as)
  have "sg \<in> set (relays (plan e k))" "k < sent s"
    using inv_planD(3)[OF assms(6) relay(2), of sg] inv_idsD(1)[OF assms(4) relay(2)] by auto
  then show ?thesis using relay assms(2,7) by (auto simp: inv_outcome_def)
next
  case return
  then show ?thesis using assms(2,5,7) by (auto simp: inv_outcome_def inv_chan_def)
next
  case abort
  from deadlocked_no_workers[OF assms(3,5) abort(2)] assms(5)
  have "concurrency (cfg e) \<le> 0" by (simp add: inv_chan_def)
  then show ?thesis using abort assms(2,7) by (auto simp: inv_outcome_def)
qed (use assms(2,7) in \<open>auto simp: inv_outcome_def\<close>)

lemma invariant_fire:
  assumes "fire e m s = Some t" "outcome s = Running" "invariant e s"
  shows "invariant e t"
  using assms inv_lock_fire[of e m s t] inv_ids_fire[of e m s t] inv_chan_fire[of e m s t]
    inv_log_fire[of e m s t] inv_plan_fire[of e m s t] inv_invoked_fire[of e m s t]
    inv_outcome_fire[of e m s t]
  unfolding invariant_def by blast

lemma invariant_init: "invariant e (init e)"
  by (auto simp: invariant_def init_def inv_lock_def inv_ids_def inv_chan_def inv_log_def
      inv_plan_def inv_invoked_def inv_outcome_def busy_def ids_def found_def roots_def)

lemma invariant_run: "run e ms s = Some t \<Longrightarrow> invariant e s \<Longrightarrow> invariant e t"
proof (induction ms arbitrary: s)
  case Nil
  then show ?case by simp
next
  case (Cons m ms)
  then show ?case by (auto split: if_splits option.splits dest: invariant_fire)
qed

lemma invariant_reachable: "reachable e s \<Longrightarrow> invariant e s"
  unfolding reachable_def using invariant_run invariant_init by blast

lemma run_append: "run e (ms @ ms') s = (case run e ms s of Some t \<Rightarrow> run e ms' t | None \<Rightarrow> None)"
  by (induction ms arbitrary: s) (auto split: option.splits)

lemma reachable_init: "reachable e (init e)"
  unfolding reachable_def by (rule exI[of _ "[]"]) simp

lemma reachable_step: "reachable e s \<Longrightarrow> step e s t \<Longrightarrow> reachable e t"
proof -
  assume "reachable e s" "step e s t"
  then obtain ms m where "run e ms (init e) = Some s" "outcome s = Running" "fire e m s = Some t"
    unfolding reachable_def step_def by blast
  then have "run e (ms @ [m]) (init e) = Some t" by (simp add: run_append)
  then show ?thesis unfolding reachable_def by blast
qed


lemma sum_list_map_update:
  "i < length ws \<Longrightarrow> sum_list (map f (ws[i := w])) + f (ws ! i) = sum_list (map f ws) + (f w :: nat)"
proof (induction ws arbitrary: i)
  case Nil
  then show ?case by simp
next
  case (Cons a ws)
  then show ?case by (cases i) auto
qed

lemma fuel_workers:
  assumes "i < length (workers s)" "workers t = (workers s)[i := w]"
  shows "sum_list (map wcost (workers t)) + wcost (workers s ! i) = sum_list (map wcost (workers s)) + wcost w"
  using sum_list_map_update[OF assms(1), of wcost w] assms(2) by simp

text \<open>Every move uses up fuel, so a run takes at most \<open>fuel e (init e)\<close> steps.\<close>

lemma fuel_fire:
  assumes "fire e m s = Some t" "outcome s = Running"
  shows "fuel e t < fuel e s"
  using assms(1)
proof (cases rule: fire_cases)
  case (complain n bs ev)
  then show ?thesis using assms(2) by (auto simp: fuel_def piece_def)
next
  case (hand i p ev)
  then show ?thesis using assms(2) fuel_workers[OF hand(3), of t "Busy (sent s) (execute (cfg e) (pathstr (wher (cfg e)) p) (child_of e (sent s)))"]
    by (auto simp: fuel_def)
next
  case shut
  then show ?thesis using assms(2) by (auto simp: fuel_def)
next
  case (leave i)
  then show ?thesis using assms(2) fuel_workers[OF leave(2), of t Gone]
    by (auto simp: fuel_def)
next
  case return
  then show ?thesis using assms(2) by (auto simp: fuel_def)
next
  case (finish i n k)
  then show ?thesis using assms(2) fuel_workers[of i s t Idle]
    by (auto simp: fuel_def busy_def)
next
  case (spawn i n k d as)
  then show ?thesis using assms(2) fuel_workers[of i s t "Busy k as"]
    by (auto simp: fuel_def busy_def)
next
  case (childout i n k st bs as)
  then show ?thesis using assms(2) fuel_workers[of i s t "Busy k (if n = length bs then as else ChildOut st (drop n bs) # as)"]
    by (auto simp: fuel_def busy_def piece_def split: if_splits)
next
  case (acquire i n k as)
  then show ?thesis using assms(2) fuel_workers[of i s t "Busy k as"]
    by (auto simp: fuel_def busy_def)
next
  case (put i n k st bs as)
  then show ?thesis using assms(2) fuel_workers[of i s t "Busy k (if n = length bs then as else Write st (drop n bs) # as)"]
    by (auto simp: fuel_def busy_def piece_def split: if_splits)
next
  case (relay i n k sg as)
  then show ?thesis using assms(2) fuel_workers[of i s t "Busy k as"]
    by (auto simp: fuel_def busy_def)
next
  case (crash i n k as)
  then show ?thesis using assms(2) by (auto simp: fuel_def)
next
  case (die sg)
  then show ?thesis using assms(2) by (auto simp: fuel_def)
next
  case abort
  then show ?thesis using assms(2) by (auto simp: fuel_def)
next
  case (release i n k as)
  then show ?thesis using assms(2) fuel_workers[of i s t "Busy k as"]
    by (auto simp: fuel_def busy_def)
qed

lemma piece_all: "piece (length bs) bs"
  by (simp add: piece_def)

lemma holder_moves:
  assumes "busy s j k as" "in_cs as"
  shows "\<exists>n t. fire e (Work j n) s = Some t"
proof (cases as rule: in_cs.cases)
  case (2 st bs as')
  then show ?thesis using assms(1) piece_all[of bs] 
    by (intro exI[of _ "length bs"]) (auto simp: busy_def)
qed (use assms in \<open>auto simp: busy_def\<close>)

lemma worker_moves:
  assumes "inv_lock s" "busy s i k as"
  shows "\<exists>m t. fire e m s = Some t"
proof (cases as)
  case Nil
  then show ?thesis using assms(2) by (intro exI[of _ "Work i 0"]) (auto simp: busy_def)
next
  case (Cons a as')
  show ?thesis
  proof (cases a)
    case (Run d)
    then show ?thesis using assms(2) Cons by (intro exI[of _ "Work i 0"]) (auto simp: busy_def)
  next
    case (ChildOut st bs)
    then show ?thesis using assms(2) Cons piece_all[of bs]
      by (intro exI[of _ "Work i (length bs)"]) (auto simp: busy_def)
  next
    case Lock
    show ?thesis
    proof (cases "lock s")
      case None
      then show ?thesis using assms(2) Cons Lock by (intro exI[of _ "Work i 0"]) (auto simp: busy_def)
    next
      case (Some h)
      with assms(1) obtain j where h: "h = Worker j" by (cases h) (auto simp: inv_lock_def)
      with assms(1) Some have j: "j < length (workers s)" "workers s ! j \<noteq> Idle" "workers s ! j \<noteq> Gone"
        by (auto simp: inv_lock_def)
      then obtain k' bs where b: "busy s j k' bs" by (cases "workers s ! j") (auto simp: busy_def)
      from inv_lockD[OF assms(1) b] Some h have "in_cs bs" by simp
      from holder_moves[OF b this] show ?thesis by blast
    qed
  next
    case (Write st bs)
    then show ?thesis using assms(2) Cons piece_all[of bs]
      by (intro exI[of _ "Work i (length bs)"]) (auto simp: busy_def)
  next
    case (Signal sg)
    then show ?thesis using assms(2) Cons by (intro exI[of _ "Work i 0"]) (auto simp: busy_def)
  next
    case Unlock
    then show ?thesis using assms(2) Cons by (intro exI[of _ "Work i 0"]) (auto simp: busy_def)
  qed
qed

text \<open>With at least one worker, a program that is still running can always move.\<close>

lemma progress:
  assumes "invariant e s" "outcome s = Running" "1 \<le> concurrency (cfg e)"
  shows "\<exists>m t. fire e m s = Some t"
proof (cases "\<exists>i k as. busy s i k as")
  case True
  then show ?thesis using worker_moves assms(1) unfolding invariant_def by blast
next
  case False
  then have nb: "i < length (workers s) \<Longrightarrow> workers s ! i = Idle \<or> workers s ! i = Gone" for i
    by (cases "workers s ! i") (auto simp: busy_def)
  have ch: "inv_chan e s" using assms(1) by (simp add: invariant_def)
  then have len: "0 < length (workers s)" using assms(3) by (simp add: inv_chan_def)
  show ?thesis
  proof (cases "todo s")
    case Nil
    show ?thesis
    proof (cases "chan_closed s")
      case False
      then show ?thesis using Nil by (intro exI[of _ Close]) auto
    next
      case True
      show ?thesis
      proof (cases "list_all (\<lambda>w. w = Gone) (workers s)")
        case True
        then show ?thesis using \<open>chan_closed s\<close> by (intro exI[of _ Return]) auto
      next
        case False
        then obtain i where "i < length (workers s)" "workers s ! i \<noteq> Gone"
          by (auto simp: list_all_length)
        then have "workers s ! i = Idle" using nb by blast
        then show ?thesis using \<open>chan_closed s\<close> \<open>i < length (workers s)\<close>
          by (intro exI[of _ "Leave i"]) auto
      qed
    qed
  next
    case (Cons a ev)
    show ?thesis
    proof (cases a)
      case (PErr bs)
      then show ?thesis using Cons piece_all[of bs] by (intro exI[of _ "Complain (length bs)"]) auto
    next
      case (Send p)
      have "\<not> chan_closed s" using ch Cons by (auto simp: inv_chan_def)
      then have "workers s ! 0 \<noteq> Gone" using ch len by (auto simp: inv_chan_def)
      then have "workers s ! 0 = Idle" using nb[OF len] by simp
      then show ?thesis using Cons Send len by (intro exI[of _ "Hand 0"]) auto
    qed
  qed
qed


lemma all_gone_not_busy: "list_all (\<lambda>w. w = Gone) (workers s) \<Longrightarrow> \<not> busy s i k as"
  by (auto simp: busy_def list_all_length)

text \<open>When \<^verbatim>\<open>main\<close> has returned, every directory found has been run exactly once.\<close>

lemma exited_complete:
  assumes "invariant e s" "outcome s = Exited c"
  shows "c = 0" "sent s = length (found e)" "distinct (ids (invoked s))"
    "set (ids (invoked s)) = {..<length (found e)}"
    "mset (map (\<lambda>x. snd (snd x)) (invoked s)) = mset (map (pathstr (wher (cfg e))) (found e))"
proof -
  from assms have o: "c = 0" "todo s = []" "list_all (\<lambda>w. w = Gone) (workers s)"
    by (auto simp: invariant_def inv_outcome_def)
  from assms(1) have ch: "inv_chan e s" and iv: "inv_invoked e s" and id: "inv_ids s"
    by (auto simp: invariant_def)
  show "c = 0" by fact
  show sn: "sent s = length (found e)" using ch o(2) by (auto simp: inv_chan_def)
  show d: "distinct (ids (invoked s))" by (rule inv_invokedD(2)[OF iv])
  have "k \<in> set (ids (invoked s))" if "k < sent s" for k
    using inv_invokedD(4)[OF iv that] all_gone_not_busy[OF o(3)] by blast
  then show st: "set (ids (invoked s)) = {..<length (found e)}"
    using inv_idsD(5)[OF id] sn by auto
  have "mset (ids (invoked s)) = mset [0..<length (found e)]"
    using d st by (intro iffD1[OF set_eq_iff_mset_eq_distinct]) (auto simp: lessThan_atLeast0)
  then have "mset (map (\<lambda>k. pathstr (wher (cfg e)) (found e ! k)) (ids (invoked s)))
      = mset (map (\<lambda>k. pathstr (wher (cfg e)) (found e ! k)) [0..<length (found e)])"
    by (metis mset_map)
  moreover have "map (\<lambda>k. pathstr (wher (cfg e)) (found e ! k)) (ids (invoked s)) = map (\<lambda>x. snd (snd x)) (invoked s)"
    using inv_invokedD(1)[OF iv] by (auto simp: ids_def dir_of_def)
  moreover have "map (\<lambda>k. pathstr (wher (cfg e)) (found e ! k)) [0..<length (found e)] = map (pathstr (wher (cfg e))) (found e)"
    by (simp add: map_nth flip: map_map[unfolded comp_def])
  ultimately show "mset (map (\<lambda>x. snd (snd x)) (invoked s)) = mset (map (pathstr (wher (cfg e))) (found e))"
    by simp
qed


lemma reachable_run: "run e ms (init e) \<noteq> None \<Longrightarrow> reachable e (the (run e ms (init e)))"
  unfolding reachable_def by auto



lemma run_induct:
  assumes "run e ms s = Some t" "P s" "\<And>s m t. P s \<Longrightarrow> outcome s = Running \<Longrightarrow> fire e m s = Some t \<Longrightarrow> P t"
  shows "P t"
  using assms(1,2)
proof (induction ms arbitrary: s)
  case Nil
  then show ?case by simp
next
  case (Cons m ms)
  then show ?case using assms(3) by (auto split: if_splits option.splits)
qed

lemma starved_fire:
  assumes "starved e s" "found e \<noteq> []" "outcome s = Running" "fire e m s = Some t"
  shows "starved e t"
  using assms(4)
proof (cases rule: fire_cases)
  case (complain n bs ev)
  then show ?thesis using assms(1,3) by (auto simp: starved_def)
qed (use assms(1,2,3) in \<open>auto simp: starved_def busy_def\<close>)

text \<open>Without a worker, a pending send leaves the program one move: the runtime's.\<close>

lemma starved_blocked:
  assumes "starved e s" "todo s = Send p # ev"
  shows "deadlocked s" "fire e m s = Some t \<Longrightarrow> m = Abort \<and> t = s\<lparr>outcome := Aborted\<rparr>"
proof -
  show d: "deadlocked s" using assms by (simp add: starved_def deadlocked_def main_waits_def)
  show "m = Abort \<and> t = s\<lparr>outcome := Aborted\<rparr>" if "fire e m s = Some t"
    using that assms by (cases m) (auto simp: starved_def split: if_splits)
qed

lemma remdups_adj_head: "remdups_adj (x # xs) = x # remdups_adj (dropWhile (\<lambda>y. y = x) xs)"
  by (induction xs) auto

lemma distinct_remdups_adj_tl: "distinct (remdups_adj (x # xs)) \<Longrightarrow> distinct (remdups_adj xs)"
  by (cases xs) (auto split: if_splits)

lemma distinct_solid: "distinct (remdups_adj xs) \<Longrightarrow> solid k xs"
proof (induction xs)
  case Nil
  then show ?case by (simp add: solid_def)
next
  case (Cons x xs)
  show ?case
  proof (cases "x = k")
    case True
    from Cons(2) have "k \<notin> set (remdups_adj (dropWhile (\<lambda>y. y = k) xs))"
      unfolding True by (subst (asm) remdups_adj_head) simp
    then show ?thesis using True by (simp add: solid_def)
  next
    case False
    then show ?thesis using Cons(1)[OF distinct_remdups_adj_tl[OF Cons(2)]]
      by (simp add: solid_def)
  qed
qed

lemma solid_map_inj: "inj f \<Longrightarrow> solid (f k) (map f xs) = solid k xs"
  by (auto simp: solid_def dropWhile_map comp_def inj_eq dest: injD)

lemma owners_reports:
  "\<forall>x \<in> set l. \<forall>k. fst x \<noteq> Child k \<Longrightarrow>
   filter (\<lambda>w. w \<noteq> Walker) (map fst l) = map Report (reports l)"
  by (induction l rule: reports.induct) auto

lemma execute_split:
  "execute c dir ch = before_lock (execute c dir ch) @ Lock # section_of (execute c dir ch) @ [Unlock]"
  unfolding section_execute
  by (simp add: execute_def before_lock_passthrough)

lemma writes_before_lock: "writes (before_lock (execute c dir ch)) = []"
  by (simp add: execute_def before_lock_passthrough passthrough_proj)

lemma failure_line_in_section:
  "failure ch = Some er \<Longrightarrow>
   (Stderr, failure_line c dir (msg_of er)) \<in> set (writes (section_of (execute c dir ch)))"
  unfolding section_execute
  by (cases er) (auto simp: writes_append status_def split: option.splits wait_status.splits)

lemma status_wbytes_plan:
  "wbytes (execute c dir ch) = wbytes (status c dir ch) @ wbytes (dump c ch)"
  by (simp add: execute_def wbytes_append passthrough_proj)

section \<open>The claims about one call of \<^verbatim>\<open>execute\<close>\<close>

text \<open>
  Claim C6. A call sends a signal to the program itself exactly when the child's error is
  an exit error whose wait status says the child was signalled, and the signal sent is the
  one that ended the child: a child that succeeded, exited with a code, or could not be
  started sends nothing.
\<close>

theorem relay_iff_signaled:
  "relays (execute c dir ch) =
     (case failure ch of
        Some (ExitError (Some (WSignaled sg)) msg) \<Rightarrow> [sg]
      | _ \<Rightarrow> [])"
  by (simp add: execute_def relays_append passthrough_proj dump_proj status_def
        split: option.splits run_error.splits wait_status.splits)



section \<open>The claim about the walk\<close>

text \<open>
  Claim C4, as amended. In a tree whose listings name every entry once, let \<open>P\<close> be a
  directory whose listing succeeds for the callback and shows a directory named
  \<^verbatim>\<open>.git\<close>, and let no directory strictly above \<open>P\<close> be emitted itself. Then the walk
  sends \<open>P\<close> exactly once and sends no path strictly below \<open>P\<close>.
\<close>

theorem prune_at_first_match:
  assumes "wf_fs fs"
    and "lookup fs P = Some (Dir cs)" and "stat_errors cs = []"
    and "lookup fs (P @ [''.git'']) = Some d" and "IsDir d"
    and "\<forall>Q k. strict_prefix Q P \<longrightarrow> lookup fs Q = Some k \<longrightarrow> \<not> is_root k"
  shows "count_list (roots w fs) P = 1 \<and> (\<forall>Q \<in> set (roots w fs). \<not> strict_prefix P Q)"
proof -
  from assms(2,4) have "map_of cs ''.git'' = Some d"
    by (simp add: lookup_append split: option.splits)
  then have "(''.git'', d) \<in> set cs" by (rule map_of_SomeD)
  then have root: "is_root (Dir cs)" using assms(3,5) by (auto simp: is_root_def marker_iff)
  have re: "reaches fs P" using reaches_iff[OF assms(2)] assms(6) by simp
  note c = count_roots[OF assms(1), of w]
  have "\<not> strict_prefix P Q" if "Q \<in> set (roots w fs)" for Q
  proof
    assume "strict_prefix P Q"
    then obtain x r where Q: "Q = P @ x # r"
      by (metis strict_prefixE' )
    from that have "count_list (roots w fs) Q \<noteq> 0" by (simp add: count_list_0_iff)
    then have "reaches fs Q" using c[of Q] by (auto split: if_splits)
    from reaches_below[OF this[unfolded Q] assms(2)] root show False by simp
  qed
  then show ?thesis using c[of P] assms(2) root re by auto
qed

theorem prune_at_first_match_witness:
  "wf_fs tree_nested
   \<and> lookup tree_nested [''A''] = Some (Dir [(''.git'', Dir []), (''B'', Dir [(''.git'', Dir [])])])
   \<and> lookup tree_nested [''A'', ''.git''] = Some (Dir []) \<and> IsDir (Dir [])
   \<and> count_list (roots ''.'' tree_nested) [''A''] = 1
   \<and> roots ''.'' tree_nested = [[''A'']]"
proof -
  have a: "wf_fs tree_nested" by code_simp
  have b: "lookup tree_nested [''A''] = Some (Dir [(''.git'', Dir []), (''B'', Dir [(''.git'', Dir [])])])"
    by code_simp
  have c: "stat_errors [(''.git'', Dir []), (''B'', Dir [(''.git'', Dir [])])] = []" by simp
  have d: "lookup tree_nested ([''A''] @ [''.git'']) = Some (Dir [])" by code_simp
  have e: "IsDir (Dir [])" by simp
  have f: "\<forall>Q k. strict_prefix Q [''A''] \<longrightarrow> lookup tree_nested Q = Some k \<longrightarrow> \<not> is_root k"
  proof (intro allI impI)
    fix Q k assume "strict_prefix Q [''A'']" "lookup tree_nested Q = Some k"
    then have "Q = []" "k = tree_nested" by (auto simp: strict_prefix_def prefix_Cons)
    then show "\<not> is_root k" by (simp add: tree_nested_def is_root_def)
  qed
  have g: "roots ''.'' tree_nested = [[''A'']]" by code_simp
  show ?thesis using prune_at_first_match[OF a b c d e f, of "''.''"] a b d g by simp
qed

text \<open>
  Claim C4 as stated fails for a repository inside a repository: with \<^verbatim>\<open>A/.git\<close> and
  \<^verbatim>\<open>A/B/.git\<close> the walk is pruned at \<^verbatim>\<open>A\<close> and never sends \<^verbatim>\<open>A/B\<close>, although
  \<^verbatim>\<open>A/B\<close> holds a directory named \<^verbatim>\<open>.git\<close>.
\<close>

theorem nested_marker_counterexample:
  "wf_fs tree_nested
   \<and> lookup tree_nested [''A'', ''B'', ''.git''] = Some (Dir []) \<and> IsDir (Dir [])
   \<and> count_list (roots ''.'' tree_nested) [''A'', ''B''] = 0"
  by code_simp

section \<open>The claims about a whole run\<close>

text \<open>
  Claim C2, as amended. With at least one worker, in every state a run can reach no
  directory has been run twice: the children run have numbers that are all different,
  each the number of a directory found, and each child ran in the directory of its
  number. A program that is still running can take a step, and every step uses up fuel.
  A run that is over and was not ended by the signal the program sent to itself is over
  because \<^verbatim>\<open>main\<close> has returned, and then the children run are exactly one for each
  directory found: as many as directories, their numbers covering every directory.
\<close>

theorem every_root_invoked_once:
  assumes "1 \<le> concurrency (cfg e)" "reachable e s"
  shows "distinct (ids (invoked s))
         \<and> (\<forall>x \<in> set (invoked s).
               fst (snd x) < length (found e) \<and> snd (snd x) = dir_of e (fst (snd x)))
         \<and> (outcome s = Running \<longrightarrow>
              (\<exists>m t. fire e m s = Some t) \<and> (\<forall>m t. fire e m s = Some t \<longrightarrow> fuel e t < fuel e s))
         \<and> ((\<forall>sg. outcome s \<noteq> Killed sg) \<and> outcome s \<noteq> Running \<longrightarrow>
              outcome s = Exited 0
              \<and> length (invoked s) = length (found e)
              \<and> set (ids (invoked s)) = {..<length (found e)}
              \<and> mset (map (\<lambda>x. snd (snd x)) (invoked s)) =
                  mset (map (pathstr (wher (cfg e))) (found e)))"
proof -
  note inv = invariant_reachable[OF assms(2)]
  then have iv: "inv_invoked e s" and id: "inv_ids s" and ch: "inv_chan e s"
    by (auto simp: invariant_def)
  have "outcome s \<noteq> Crashed" using inv by (simp add: invariant_def inv_lock_def)
  moreover have "outcome s \<noteq> Aborted" using inv assms(1) by (auto simp: invariant_def inv_outcome_def)
  ultimately have oc: "(\<forall>sg. outcome s \<noteq> Killed sg) \<Longrightarrow> outcome s \<noteq> Running \<Longrightarrow> \<exists>c. outcome s = Exited c"
    by (cases "outcome s") auto
  have len: "length (invoked s) = length (found e)" if "outcome s = Exited c" for c
  proof -
    have "length (ids (invoked s)) = card (set (ids (invoked s)))"
      using exited_complete(3)[OF inv that] by (simp add: distinct_card)
    then show ?thesis using exited_complete(4)[OF inv that] by (simp add: ids_def)
  qed
  have d: "distinct (ids (invoked s))" by (rule inv_invokedD(2)[OF iv])
  have dir: "\<forall>x \<in> set (invoked s).
               fst (snd x) < length (found e) \<and> snd (snd x) = dir_of e (fst (snd x))"
  proof
    fix x assume x: "x \<in> set (invoked s)"
    then have "fst (snd x) \<in> set (ids (invoked s))" by (simp add: ids_def)
    then have "fst (snd x) < length (found e)"
      using inv_idsD(5)[OF id] ch by (fastforce simp: inv_chan_def)
    then show "fst (snd x) < length (found e) \<and> snd (snd x) = dir_of e (fst (snd x))"
      using inv_invokedD(1)[OF iv x] by simp
  qed
  have run: "outcome s = Running \<longrightarrow>
      (\<exists>m t. fire e m s = Some t) \<and> (\<forall>m t. fire e m s = Some t \<longrightarrow> fuel e t < fuel e s)"
    using progress[OF inv _ assms(1)] fuel_fire[of e _ s] by blast
  have fin: "(\<forall>sg. outcome s \<noteq> Killed sg) \<and> outcome s \<noteq> Running \<longrightarrow>
              outcome s = Exited 0
              \<and> length (invoked s) = length (found e)
              \<and> set (ids (invoked s)) = {..<length (found e)}
              \<and> mset (map (\<lambda>x. snd (snd x)) (invoked s)) =
                  mset (map (pathstr (wher (cfg e))) (found e))"
    using oc exited_complete[OF inv] len by blast
  show ?thesis using d dir run fin by blast
qed

theorem every_root_invoked_once_witness:
  "1 \<le> concurrency (cfg env_two) \<and> reachable env_two state_two
   \<and> (\<forall>sg. outcome state_two \<noteq> Killed sg) \<and> outcome state_two \<noteq> Running
   \<and> outcome state_two = Exited 0
   \<and> length (invoked state_two) = length (found env_two)
   \<and> mset (map (\<lambda>x. snd (snd x)) (invoked state_two)) = mset [''a'', ''b'']
   \<and> 1 \<le> concurrency (cfg env_kill) \<and> reachable env_kill state_kill
   \<and> outcome state_kill = Killed 15 \<and> distinct (ids (invoked state_kill))"
proof -
  have r: "reachable env_two state_two"
    unfolding state_two_def by (rule reachable_run) code_simp
  have c: "1 \<le> concurrency (cfg env_two)" by code_simp
  have o: "outcome state_two = Exited 0" by code_simp
  have f: "map (pathstr (wher (cfg env_two))) (found env_two) = [''a'', ''b'']" by code_simp
  have r': "reachable env_kill state_kill"
    unfolding state_kill_def by (rule reachable_run) code_simp
  have c': "1 \<le> concurrency (cfg env_kill)" and o': "outcome state_kill = Killed 15"
    by code_simp+
  show ?thesis
    using every_root_invoked_once[OF c r] every_root_invoked_once[OF c' r'] r c o f r' c' o'
    by simp
qed

text \<open>
  Claim C2 as stated fails on a run that the relay ends. Serial mode, two repositories,
  the command ended by signal 15 in the first: after the failure line the program sends
  itself the signal, the signal takes effect, and the program is gone with two directories
  found and one child run.
\<close>

theorem killed_run_counterexample:
  "1 \<le> concurrency (cfg env_kill) \<and> reachable env_kill state_kill
   \<and> outcome state_kill = Killed 15 \<and> length (found env_kill) = 2
   \<and> length (invoked state_kill) = 1"
proof -
  have r: "reachable env_kill state_kill"
    unfolding state_kill_def by (rule reachable_run) code_simp
  have "1 \<le> concurrency (cfg env_kill) \<and> outcome state_kill = Killed 15 \<and> length (found env_kill) = 2
   \<and> length (invoked state_kill) = 1" by code_simp
  then show ?thesis using r by simp
qed

text \<open>
  Claim C9, as amended. When the configured concurrency is not positive and the walk
  finds at least one repository, no worker exists, nothing is ever handed over or run,
  the channel is never closed and \<^verbatim>\<open>main\<close> never returns. While the program runs it
  can take a step and every step uses up fuel; the steps before the first send write the
  walker's error lines, and once the next thing the walk does is a send, every goroutine
  is blocked and the one move left is the runtime's, which stops the program. So the
  run does end, stopped by the runtime.
\<close>

theorem no_worker_no_return:
  assumes "concurrency (cfg e) \<le> 0" "found e \<noteq> []" "reachable e s"
  shows "(outcome s = Running \<or> outcome s = Aborted)
         \<and> \<not> chan_closed s \<and> workers s = [] \<and> invoked s = [] \<and> sends (todo s) = found e
         \<and> (outcome s = Running \<longrightarrow>
              (\<exists>m t. fire e m s = Some t)
              \<and> (\<forall>m t. fire e m s = Some t \<longrightarrow> fuel e t < fuel e s)
              \<and> ((\<exists>p ev. todo s = Send p # ev) \<longrightarrow>
                   deadlocked s \<and> (\<forall>m t. fire e m s = Some t \<longrightarrow> m = Abort \<and> outcome t = Aborted)))"
proof -
  from assms(3) obtain ms where ms: "run e ms (init e) = Some s" by (auto simp: reachable_def)
  have "starved e (init e)" using assms(1) by (simp add: starved_def init_def found_def roots_def)
  from run_induct[OF ms, of "starved e", OF this] starved_fire[OF _ assms(2)]
  have st: "starved e s" by blast
  then have ne: "todo s \<noteq> []" using assms(2) by (auto simp: starved_def)
  have mv: "\<exists>m t. fire e m s = Some t"
  proof -
    obtain a ev where a: "todo s = a # ev" using ne by (cases "todo s") auto
    show ?thesis
    proof (cases a)
      case (Send p)
      then have "fire e Abort s \<noteq> None" using starved_blocked(1)[OF st] a by simp
      then show ?thesis by blast
    next
      case (PErr bs)
      then have "fire e (Complain (length bs)) s \<noteq> None" using a piece_all[of bs] by simp
      then show ?thesis by blast
    qed
  qed
  have bl: "deadlocked s \<and> (\<forall>m t. fire e m s = Some t \<longrightarrow> m = Abort \<and> outcome t = Aborted)"
    if "todo s = Send p # ev" for p ev
    using starved_blocked[OF st that] by fastforce
  show ?thesis using st mv bl fuel_fire[of e _ s] unfolding starved_def by blast
qed

theorem no_worker_no_return_witness:
  "concurrency (cfg env_none) \<le> 0 \<and> found env_none \<noteq> [] \<and> reachable env_none (init env_none)
   \<and> outcome (init env_none) = Running \<and> invoked (init env_none) = []
   \<and> todo (init env_none) = [Send [''a''], Send [''b'']]
   \<and> deadlocked (init env_none)"
proof -
  have c: "concurrency (cfg env_none) \<le> 0" by code_simp
  have f: "found env_none \<noteq> []" by code_simp
  have t: "todo (init env_none) = [Send [''a''], Send [''b'']]"
    and o: "outcome (init env_none) = Running" by code_simp+
  show ?thesis
    using no_worker_no_return[OF c f reachable_init] c f t o reachable_init[of env_none] by simp
qed

text \<open>
  Claim C9 as stated fails in that the run does end: with no worker and two
  repositories the walk comes to its first send, every goroutine is blocked, and the
  runtime stops the program.
\<close>

theorem no_worker_abort_counterexample:
  "concurrency (cfg env_none) \<le> 0 \<and> found env_none \<noteq> [] \<and> reachable env_none state_none
   \<and> outcome state_none = Aborted"
proof -
  have r: "reachable env_none state_none"
    unfolding state_none_def by (rule reachable_run) code_simp
  have "concurrency (cfg env_none) \<le> 0 \<and> found env_none \<noteq> [] \<and> outcome state_none = Aborted"
    by code_simp
  then show ?thesis using r by simp
qed



text \<open>
  Claim C1. In every state a run can reach, with any number of workers and under any
  schedule, the bytes of the reports lie in the combined output in blocks: once a byte of
  another report has followed the bytes of a report, no byte of that report comes again.
  Every byte of a report was written while its worker held the mutex. The mutex is held
  by worker \<open>i\<close> exactly when that worker is inside its critical section, the holder can
  always take its next step, and every call of \<^verbatim>\<open>execute\<close> writes nothing before taking
  the mutex and ends with the unlock.
\<close>

theorem reports_never_interleave:
  assumes "reachable e s"
  shows "(\<forall>k. solid k (reports (outlog s)))
         \<and> (\<forall>x \<in> set (outlog s). (\<exists>k. fst x = Report k) \<longrightarrow> fst (snd x))
         \<and> (\<forall>i. lock s = Some (Worker i) \<longleftrightarrow> (\<exists>k as. busy s i k as \<and> in_cs as))
         \<and> (\<forall>i k as. busy s i k as \<and> in_cs as \<longrightarrow> (\<exists>n t. fire e (Work i n) s = Some t))
         \<and> (\<forall>k. plan e k = before_lock (plan e k) @ Lock # section_of (plan e k) @ [Unlock]
                \<and> writes (before_lock (plan e k)) = [])"
proof -
  note inv = invariant_reachable[OF assms]
  then have l: "inv_lock s" and g: "inv_log s" by (auto simp: invariant_def)
  have 1: "\<forall>k. solid k (reports (outlog s))"
    using distinct_solid[OF inv_logD(1)[OF g]] by blast
  have 2: "\<forall>x \<in> set (outlog s). (\<exists>k. fst x = Report k) \<longrightarrow> fst (snd x)"
    using inv_logD(4)[OF g] by blast
  have 3: "lock s = Some (Worker i) \<longleftrightarrow> (\<exists>k as. busy s i k as \<and> in_cs as)" for i
  proof
    assume h: "lock s = Some (Worker i)"
    with l have "i < length (workers s)" "workers s ! i \<noteq> Idle" "workers s ! i \<noteq> Gone"
      by (auto simp: inv_lock_def)
    then obtain k as where b: "busy s i k as" by (cases "workers s ! i") (auto simp: busy_def)
    with inv_lockD[OF l b] h show "\<exists>k as. busy s i k as \<and> in_cs as" by blast
  next
    assume "\<exists>k as. busy s i k as \<and> in_cs as"
    then show "lock s = Some (Worker i)" using inv_lockD[OF l] by blast
  qed
  show ?thesis using 1 2 3 holder_moves[of s _ _ _ e] execute_split writes_before_lock
    unfolding plan_def by blast
qed

theorem reports_never_interleave_witness:
  "reachable env_two state_two
   \<and> reports (outlog state_two) = replicate 8 1 @ replicate 1 1 @ replicate 8 0 @ replicate 1 0
   \<and> solid 0 (reports (outlog state_two)) \<and> solid 1 (reports (outlog state_two))"
proof -
  have r: "reachable env_two state_two"
    unfolding state_two_def by (rule reachable_run) code_simp
  have "reports (outlog state_two) = replicate 8 1 @ replicate 1 1 @ replicate 8 0 @ replicate 1 0"
    by code_simp
  then show ?thesis using reports_never_interleave[OF r] r by simp
qed

text \<open>
  Claim C3, as amended. Every byte a report writes, the failure line of a child that
  exited with a code, was ended by a signal or could not be started included, is written
  by a worker holding the mutex: the failure line is one of the writes of the critical
  section, and a call writes nothing before taking the mutex. The error lines of the
  walk are written by the walker to standard error without the mutex.
\<close>

theorem failure_lines_and_the_mutex:
  assumes "reachable e s"
  shows "(\<forall>x \<in> set (outlog s).
            ((\<exists>k. fst x = Report k) \<longrightarrow> fst (snd x))
            \<and> (fst x = Walker \<longrightarrow> \<not> fst (snd x) \<and> fst (snd (snd x)) = Stderr))
         \<and> (\<forall>k er. failure (child_of e k) = Some er \<longrightarrow>
               (Stderr, failure_line (cfg e) (dir_of e k) (msg_of er))
                 \<in> set (writes (section_of (plan e k)))
               \<and> writes (before_lock (plan e k)) = [])"
proof -
  note inv = invariant_reachable[OF assms]
  then have g: "inv_log s" by (auto simp: invariant_def)
  have "(fst x = Walker \<longrightarrow> \<not> fst (snd x) \<and> fst (snd (snd x)) = Stderr)
      \<and> ((\<exists>k. fst x = Report k) \<longrightarrow> fst (snd x))" if "x \<in> set (outlog s)" for x
    using inv_logD(4,5)[OF g that] by auto
  then show ?thesis using failure_line_in_section writes_before_lock
    unfolding plan_def by blast
qed

theorem failure_lines_and_the_mutex_witness:
  "reachable env_fail state_fail
   \<and> failure (child_of env_fail 0) = Some (ExitError (Some (WExited 3)) ''exit status 3'')
   \<and> (Report 0, True, Stderr, CHR ''c'') \<in> set (outlog state_fail)
   \<and> (Walker, False, Stderr, CHR ''w'') \<in> set (outlog state_fail)"
proof -
  have r: "reachable env_fail state_fail"
    unfolding state_fail_def by (rule reachable_run) code_simp
  have "failure (child_of env_fail 0) = Some (ExitError (Some (WExited 3)) ''exit status 3'')
   \<and> (Report 0, True, Stderr, CHR ''c'') \<in> set (outlog state_fail)
   \<and> (Walker, False, Stderr, CHR ''w'') \<in> set (outlog state_fail)" by code_simp
  then show ?thesis using failure_lines_and_the_mutex[OF r] r by simp
qed

text \<open>
  Claim C3 as stated fails for the errors of the walk. Two workers, a repository and a
  directory that cannot be listed: worker 0 holds the mutex after four steps, and the
  byte at position 8 of the combined output is the first byte of the walker's error
  line, written by a goroutine that does not hold the mutex.
\<close>

theorem walker_writes_unlocked_counterexample:
  "reachable env_blocked state_blocked
   \<and> lock (the (run env_blocked (take 4 moves_blocked) (init env_blocked))) = Some (Worker 0)
   \<and> outlog state_blocked ! 8 = (Walker, False, Stderr, CHR ''w'')"
proof -
  have r: "reachable env_blocked state_blocked"
    unfolding state_blocked_def by (rule reachable_run) code_simp
  have "lock (the (run env_blocked (take 4 moves_blocked) (init env_blocked))) = Some (Worker 0)
   \<and> outlog state_blocked ! 8 = (Walker, False, Stderr, CHR ''w'')" by code_simp
  then show ?thesis using r by simp
qed

text \<open>
  Claim C7, as amended. When the concurrency is not 1, a report that has released the
  mutex has written, in this order, its status line (if it has one), the captured
  standard output and the captured standard error, all of them in its one critical
  section and holding the mutex; and in the combined output without the walker's lines
  its bytes are in one piece. Only error lines of the walk, which are written without
  the mutex, can lie between them.
\<close>

theorem dump_follows_status:
  assumes "concurrency (cfg e) \<noteq> 1" "reachable e s" "k \<in> set (reported s)"
  shows "written k (outlog s) =
           wbytes (status (cfg e) (dir_of e k) (child_of e k))
             @ map (Pair Stdout) (captured Stdout (chunks (child_of e k)))
             @ map (Pair Stderr) (captured Stderr (chunks (child_of e k)))
         \<and> section_of (plan e k) =
             status (cfg e) (dir_of e k) (child_of e k)
               @ [Write Stdout (captured Stdout (chunks (child_of e k))),
                  Write Stderr (captured Stderr (chunks (child_of e k)))]
         \<and> solid (Report k) (filter (\<lambda>w. w \<noteq> Walker) (map fst (outlog s)))
         \<and> (\<forall>x \<in> set (outlog s). fst x = Report k \<longrightarrow> fst (snd x))"
proof -
  note inv = invariant_reachable[OF assms(2)]
  then have g: "inv_log s" and p: "inv_plan e s" by (auto simp: invariant_def)
  have w: "written k (outlog s) = wbytes (plan e k)" by (rule inv_planD(6)[OF p assms(3)])
  have nc: "\<forall>x \<in> set (outlog s). \<forall>k. fst x \<noteq> Child k"
    using inv_planD(7)[OF p] assms(1) by blast
  have "solid (Report k) (map Report (reports (outlog s)))"
    using distinct_solid[OF inv_logD(1)[OF g], of k] by (simp add: solid_map_inj inj_def)
  then have sl: "solid (Report k) (filter (\<lambda>w. w \<noteq> Walker) (map fst (outlog s)))"
    by (simp add: owners_reports[OF nc])
  have h: "\<forall>x \<in> set (outlog s). fst x = Report k \<longrightarrow> fst (snd x)"
    using inv_logD(4)[OF g] by blast
  show ?thesis using w sl h assms(1)
    by (simp add: plan_def status_wbytes_plan section_execute dump_def)
qed

theorem dump_follows_status_witness:
  "concurrency (cfg env_blocked) \<noteq> 1 \<and> reachable env_blocked state_blocked
   \<and> 0 \<in> set (reported state_blocked)
   \<and> written 0 (outlog state_blocked) = map (Pair Stdout) (''cd a; c'' @ [CHR 0x0A] @ ''x'')
   \<and> solid (Report 0) (filter (\<lambda>w. w \<noteq> Walker) (map fst (outlog state_blocked)))"
proof -
  have r: "reachable env_blocked state_blocked"
    unfolding state_blocked_def by (rule reachable_run) code_simp
  have c: "concurrency (cfg env_blocked) \<noteq> 1" and k: "0 \<in> set (reported state_blocked)"
    by code_simp+
  have w: "written 0 (outlog state_blocked) = map (Pair Stdout) (''cd a; c'' @ [CHR 0x0A] @ ''x'')"
    by code_simp
  show ?thesis using dump_follows_status[OF c r k] r c k w by simp
qed

text \<open>
  Claim C7 as stated fails when the walk reports an error at the wrong moment. Two
  workers, a repository and a directory that cannot be listed: the report of the
  repository has released the mutex, and its bytes are not in one piece in the combined
  output, because the walker's error line lies between the status line and the dump.
\<close>

theorem walker_line_splits_report_counterexample:
  "concurrency (cfg env_blocked) = 2 \<and> reachable env_blocked state_blocked
   \<and> 0 \<in> set (reported state_blocked)
   \<and> \<not> solid (Report 0) (map fst (outlog state_blocked))"
proof -
  have r: "reachable env_blocked state_blocked"
    unfolding state_blocked_def by (rule reachable_run) code_simp
  have "concurrency (cfg env_blocked) = 2 \<and> 0 \<in> set (reported state_blocked)
   \<and> \<not> solid (Report 0) (map fst (outlog state_blocked))" by code_simp
  then show ?thesis using r by simp
qed



end
